theory Spec2Isabelle
  imports Complex_Main
begin

section \<open>Strings and regular expressions of the host language\<close>

text \<open>
  JavaScript strings are modelled as \<^typ>\<open>string\<close>. \<open>startsWith s n\<close> is
  \<^verbatim>\<open>s.startsWith(n)\<close> and \<open>str_includes s n\<close> is \<^verbatim>\<open>s.includes(n)\<close>.
\<close>

fun startsWith :: "string \<Rightarrow> string \<Rightarrow> bool" where
  "startsWith s [] = True"
| "startsWith [] (c # cs) = False"
| "startsWith (d # ds) (c # cs) = (d = c \<and> startsWith ds cs)"

fun str_includes :: "string \<Rightarrow> string \<Rightarrow> bool" where
  "str_includes [] n = (n = [])"
| "str_includes (c # cs) n = (startsWith (c # cs) n \<or> str_includes cs n)"

text \<open>
  The regular expressions of the sources use character classes, the anchors \<^verbatim>\<open>^\<close> and
  \<^verbatim>\<open>$\<close>, grouping, alternation and the quantifiers \<^verbatim>\<open>?\<close>, \<^verbatim>\<open>*\<close>, \<^verbatim>\<open>+\<close>,
  \<^verbatim>\<open>{n,}\<close>. A class is a negation flag and a list of inclusive character ranges
  (a single character is the range from itself to itself).
\<close>

datatype rx =
    Cls bool "(char \<times> char) list"
  | Bol
  | Eol
  | Epsilon
  | Seq rx rx
  | Alt rx rx
  | Star rx

definition inCls :: "bool \<Rightarrow> (char \<times> char) list \<Rightarrow> char \<Rightarrow> bool" where
  "inCls neg rs c =
     (neg \<noteq> list_ex (\<lambda>(lo, hi). (of_char lo :: int) \<le> of_char c \<and> (of_char c :: int) \<le> of_char hi) rs)"

text \<open>
  A matcher state is the rest of the subject together with a flag telling whether the
  position is the start of the subject. \<open>res r st\<close> lists every state in which a
  match of \<open>r\<close> that starts at \<open>st\<close> can end. A starred expression is iterated at
  most once per remaining character: an iteration that consumes nothing reaches no new
  state.
\<close>

fun star_iter :: "('s \<Rightarrow> 's list) \<Rightarrow> nat \<Rightarrow> 's list \<Rightarrow> 's list" where
  "star_iter f 0 sts = sts"
| "star_iter f (Suc n) sts = sts @ star_iter f n (remdups (concat (map f sts)))"

primrec res :: "rx \<Rightarrow> bool \<times> string \<Rightarrow> (bool \<times> string) list" where
  "res (Cls neg rs) st =
     (case snd st of [] \<Rightarrow> [] | c # cs \<Rightarrow> if inCls neg rs c then [(False, cs)] else [])"
| "res Bol st = (if fst st then [st] else [])"
| "res Eol st = (if snd st = [] then [st] else [])"
| "res Epsilon st = [st]"
| "res (Seq p q) st = concat (map (res q) (res p st))"
| "res (Alt p q) st = res p st @ res q st"
| "res (Star p) st = star_iter (res p) (length (snd st)) [st]"

text \<open>\<^verbatim>\<open>re.test(s)\<close>: some match starts at some position of the subject.\<close>

fun rx_search :: "rx \<Rightarrow> bool \<Rightarrow> string \<Rightarrow> bool" where
  "rx_search r b [] = (res r (b, []) \<noteq> [])"
| "rx_search r b (c # cs) = (res r (b, c # cs) \<noteq> [] \<or> rx_search r False cs)"

definition rx_test :: "rx \<Rightarrow> string \<Rightarrow> bool" where
  "rx_test r s = rx_search r True s"

definition rx_chr :: "char \<Rightarrow> rx" where
  "rx_chr c = Cls False [(c, c)]"

definition rx_seqs :: "rx list \<Rightarrow> rx" where
  "rx_seqs rs = foldr Seq rs Epsilon"

fun rx_alts :: "rx list \<Rightarrow> rx" where
  "rx_alts [] = Epsilon"
| "rx_alts [r] = r"
| "rx_alts (r # rs) = Alt r (rx_alts rs)"

definition rx_lit :: "string \<Rightarrow> rx" where
  "rx_lit s = rx_seqs (map rx_chr s)"

definition rx_plus :: "rx \<Rightarrow> rx" where
  "rx_plus r = Seq r (Star r)"

definition rx_opt :: "rx \<Rightarrow> rx" where
  "rx_opt r = Alt r Epsilon"

definition atLeast_rx :: "nat \<Rightarrow> rx \<Rightarrow> rx" where
  "atLeast_rx n r = rx_seqs (replicate n r @ [Star r])"

definition lower_az :: "char \<times> char" where "lower_az = (CHR ''a'', CHR ''z'')"
definition upper_AZ :: "char \<times> char" where "upper_AZ = (CHR ''A'', CHR ''Z'')"
definition digit_09 :: "char \<times> char" where "digit_09 = (CHR ''0'', CHR ''9'')"
definition one_char :: "char \<Rightarrow> char \<times> char" where "one_char c = (c, c)"

text \<open>A \<^verbatim>\<open>Set\<close> lists its elements in the order of their first insertion.\<close>

fun uniqueInOrder :: "'a list \<Rightarrow> 'a list \<Rightarrow> 'a list" where
  "uniqueInOrder seen [] = []"
| "uniqueInOrder seen (x # xs) =
     (if x \<in> set seen then uniqueInOrder seen xs else x # uniqueInOrder (x # seen) xs)"

section \<open>consensus-scorer.ts\<close>

text \<open>
  Numbers are IEEE doubles in the source. The model computes with exact rationals:
  sample and probe counts are array lengths (below \<open>2^32\<close>), and for such counts the
  comparison \<^verbatim>\<open>contentCount / sampleCount >= 0.34\<close> on doubles has the same outcome as
  on rationals (two distinct quotients \<open>c/n\<close> and \<open>17/50\<close> differ by at least
  \<open>1/(50 n)\<close>, far more than the rounding error of a double near \<open>0.34\<close>).
  \<^verbatim>\<open>Math.round(x)\<close> is \<open>\<lfloor>x + 1/2\<rfloor>\<close>. The model applies it to the exact
  product; the source rounds every operation to a double, so where the exact product is
  a half-integer, or within a rounding error of one, the confidence of the source can be
  the neighbouring integer (for 9 of 20 samples and the score 0.7 the exact product is
  31.5 and gives 32, the doubles give 31). The statements below use a confidence through
  its bounds, which hold either way, and the inputs they evaluate are far from a half.
\<close>

definition CONTENT_THRESHOLD :: rat where
  "CONTENT_THRESHOLD = 34 / 100"

definition MAX_FALLBACKS :: nat where
  "MAX_FALLBACKS = 5"

definition Math_round :: "rat \<Rightarrow> int" where
  "Math_round x = \<lfloor>x + 1 / 2\<rfloor>"

definition rx_hash_id :: rx where
  \<comment> \<open>\<^verbatim>\<open>/^#[a-z][a-z0-9-]+/\<close>\<close>
  "rx_hash_id = rx_seqs [Bol, rx_chr CHR ''#'', Cls False [lower_az],
     rx_plus (Cls False [lower_az, digit_09, one_char CHR ''-''])]"

definition rx_kebab_class :: rx where
  \<comment> \<open>\<^verbatim>\<open>/\.[a-z][a-z0-9]*(?:-[a-z][a-z0-9]+)+/\<close>\<close>
  "rx_kebab_class = rx_seqs [rx_chr CHR ''.'', Cls False [lower_az], Star (Cls False [lower_az, digit_09]),
     rx_plus (rx_seqs [rx_chr CHR ''-'', Cls False [lower_az], rx_plus (Cls False [lower_az, digit_09])])]"

definition rx_tag_attr :: rx where
  \<comment> \<open>\<^verbatim>\<open>/^(button|input|select|textarea|a)\[/\<close>\<close>
  "rx_tag_attr = rx_seqs [Bol,
     rx_alts [rx_lit ''button'', rx_lit ''input'', rx_lit ''select'', rx_lit ''textarea'', rx_lit ''a''],
     rx_chr CHR ''['']"

definition rx_camel_class :: rx where
  \<comment> \<open>\<^verbatim>\<open>/\.[a-z][a-z]*[A-Z][a-zA-Z]+/\<close>\<close>
  "rx_camel_class = rx_seqs [rx_chr CHR ''.'', Cls False [lower_az], Star (Cls False [lower_az]),
     Cls False [upper_AZ], rx_plus (Cls False [lower_az, upper_AZ])]"

definition rx_hash_class :: rx where
  \<comment> \<open>\<^verbatim>\<open>/\.[a-zA-Z0-9_-]{12,}/\<close>\<close>
  "rx_hash_class = rx_seqs [rx_chr CHR ''.'',
     atLeast_rx 12 (Cls False [lower_az, upper_AZ, digit_09, one_char CHR ''_'', one_char CHR ''-''])]"

definition stabilityScore :: "string \<Rightarrow> rat" where
  "stabilityScore sel =
    (if str_includes sel ''data-testid'' \<or> str_includes sel ''data-test-id'' then 1
     else if rx_test rx_hash_id sel \<or> str_includes sel ''[id='' then 95 / 100
     else if str_includes sel ''aria-label'' \<or> str_includes sel ''[role='' \<or> str_includes sel (''[role='' @ [CHR 0x22])
       then 85 / 100
     else if str_includes sel ''itemProp'' \<or> str_includes sel ''itemprop'' then 80 / 100
     else if str_includes sel ''[name='' then 75 / 100
     else if rx_test rx_kebab_class sel then 70 / 100
     else if rx_test rx_tag_attr sel then 65 / 100
     else if rx_test rx_camel_class sel then 55 / 100
     else if rx_test rx_hash_class sel then 20 / 100
     else 50 / 100)"

record ProbeResult =
  selector :: string
  matched :: bool
  verified :: bool
  exampleValue :: "string option"

text \<open>
  \<^verbatim>\<open>PageProbeResults\<close> is an object from intent to probe list: the association list
  of its own properties.
\<close>

type_synonym PageProbeResults = "(string \<times> ProbeResult list) list"

type_synonym VerifyMode = string

record SelectorStats =
  matchCount :: nat
  contentCount :: nat
  exampleValues :: "string list"

record SelectorEntry =
  selectors :: "string list"
  confidence :: int
  sampleCount :: nat
  entryExampleValue :: "string option"

text \<open>
  A page result is an ordinary object, made with \<^verbatim>\<open>{}\<close> by the prober, and its own
  properties are read with \<^const>\<open>map_of\<close>. The expression
  \<^verbatim>\<open>pageResult[intent]\<close> also finds what the object inherits from
  \<^verbatim>\<open>Object.prototype\<close>: for each of the names in \<open>objectPrototypeKeys\<close> that is not an
  own property it yields a function (for \<^verbatim>\<open>__proto__\<close> the prototype object), which
  is not nullish, so \<^verbatim>\<open>?? []\<close> keeps it, and the call \<^verbatim>\<open>probes.some(...)\<close> that
  follows throws a \<^verbatim>\<open>TypeError\<close>. \<open>probesOf page intent\<close> is
  \<^verbatim>\<open>pageResult[intent] ?? []\<close> together with that call.
\<close>

datatype js_error = TypeError

definition objectPrototypeKeys :: "string list" where
  "objectPrototypeKeys =
     [''constructor'', ''__defineGetter__'', ''__defineSetter__'', ''hasOwnProperty'',
      ''__lookupGetter__'', ''__lookupSetter__'', ''isPrototypeOf'', ''propertyIsEnumerable'',
      ''toString'', ''valueOf'', ''__proto__'', ''toLocaleString'']"

definition probesOf :: "PageProbeResults \<Rightarrow> string \<Rightarrow> js_error + ProbeResult list" where
  "probesOf pageResult intent =
     (case map_of pageResult intent of
        Some ps \<Rightarrow> Inr ps
      | None \<Rightarrow> if intent \<in> set objectPrototypeKeys then Inl TypeError else Inr [])"

text \<open>
  \<open>selectorStats\<close> is a \<^verbatim>\<open>Map\<close>, which keeps its keys in the order of their first
  insertion: an association list with distinct keys. \<open>addProbe\<close> is one pass of the
  inner loop over the probes of a page, \<open>tallyPages\<close> the loop over the pages, which
  carries \<open>selectorStats\<close> and \<open>samplesContaining\<close> and ends at the first page on
  which the lookup throws.
\<close>

definition emptyStats :: SelectorStats where
  "emptyStats = \<lparr>matchCount = 0, contentCount = 0, exampleValues = []\<rparr>"

definition bumpStats :: "ProbeResult \<Rightarrow> SelectorStats \<Rightarrow> SelectorStats" where
  "bumpStats probe stats =
     (let s1 = (if matched probe then stats\<lparr>matchCount := matchCount stats + 1\<rparr> else stats)
      in if verified probe
         then (let s2 = s1\<lparr>contentCount := contentCount s1 + 1\<rparr>
               in case exampleValue probe of
                    None \<Rightarrow> s2
                  | Some v \<Rightarrow> if v = [] then s2 else s2\<lparr>exampleValues := exampleValues s2 @ [v]\<rparr>)
         else s1)"

definition addProbe :: "(string \<times> SelectorStats) list \<Rightarrow> ProbeResult \<Rightarrow> (string \<times> SelectorStats) list" where
  "addProbe selectorStats probe =
     (let withKey = (if map_of selectorStats (selector probe) = None
                     then selectorStats @ [(selector probe, emptyStats)] else selectorStats)
      in map (\<lambda>(k, stats). if k = selector probe then (k, bumpStats probe stats) else (k, stats)) withKey)"

fun tallyPages ::
  "PageProbeResults list \<Rightarrow> string \<Rightarrow> (string \<times> SelectorStats) list \<times> nat
     \<Rightarrow> js_error + ((string \<times> SelectorStats) list \<times> nat)" where
  "tallyPages [] intent tally = Inr tally"
| "tallyPages (pageResult # rest) intent (selectorStats, samplesContaining) =
     (case probesOf pageResult intent of
        Inl err \<Rightarrow> Inl err
      | Inr probes \<Rightarrow>
          tallyPages rest intent
            (foldl addProbe selectorStats probes,
             if list_ex matched probes then samplesContaining + 1 else samplesContaining))"

text \<open>
  The comparator of the sort, and \<^verbatim>\<open>Array.prototype.sort\<close>, which is stable: an
  insertion sort that puts an element before the first one it does not compare greater
  than. The stability scores are distinct constants, so the sign of their difference is
  the same on doubles and on rationals.
\<close>

definition compareStats :: "string \<times> SelectorStats \<Rightarrow> string \<times> SelectorStats \<Rightarrow> rat" where
  "compareStats a b =
     (let diff = int (contentCount (snd b)) - int (contentCount (snd a))
      in if diff \<noteq> 0 then of_int diff else stabilityScore (fst b) - stabilityScore (fst a))"

fun insertBy :: "('a \<Rightarrow> 'a \<Rightarrow> rat) \<Rightarrow> 'a \<Rightarrow> 'a list \<Rightarrow> 'a list" where
  "insertBy cmp x [] = [x]"
| "insertBy cmp x (y # ys) = (if cmp x y \<le> 0 then x # y # ys else y # insertBy cmp x ys)"

definition sortBy :: "('a \<Rightarrow> 'a \<Rightarrow> rat) \<Rightarrow> 'a list \<Rightarrow> 'a list" where
  "sortBy cmp xs = foldr (insertBy cmp) xs []"

definition passesThreshold :: "nat \<Rightarrow> string \<times> SelectorStats \<Rightarrow> bool" where
  "passesThreshold n e = (of_nat (contentCount (snd e)) / of_nat n \<ge> CONTENT_THRESHOLD)"

text \<open>
  One pass of the loop over the intents: it throws, or skips the intent (\<open>None\<close>), or
  yields the entry to store.
\<close>

definition scoreIntent :: "PageProbeResults list \<Rightarrow> string \<Rightarrow> js_error + SelectorEntry option" where
  "scoreIntent allPageResults intent =
     (case tallyPages allPageResults intent ([], 0) of
        Inl err \<Rightarrow> Inl err
      | Inr (selectorStats, samplesContaining) \<Rightarrow>
          Inr (case take MAX_FALLBACKS
                      (sortBy compareStats
                        (filter (passesThreshold (length allPageResults)) selectorStats)) of
                 [] \<Rightarrow> None
               | (bestSel, bestStats) # rest \<Rightarrow>
                   (let conf = Math_round
                          (of_nat (contentCount bestStats) / of_nat (length allPageResults) * 100
                             * stabilityScore bestSel)
                    in Some \<lparr>selectors = map fst ((bestSel, bestStats) # rest),
                              confidence = min 100 conf,
                              sampleCount = samplesContaining,
                              entryExampleValue =
                                (case exampleValues bestStats of [] \<Rightarrow> None | v # _ \<Rightarrow> Some v)\<rparr>)))"

definition intentsOf :: "PageProbeResults list \<Rightarrow> string list" where
  "intentsOf allPageResults = uniqueInOrder [] (concat (map (map fst) allPageResults))"

text \<open>
  The returned object is the finite map of its own properties, from intent to entry.
  \<open>assignEntry\<close> is \<^verbatim>\<open>output[intent] = {...}\<close>: on an ordinary object the key
  \<^verbatim>\<open>__proto__\<close> is the inherited accessor, and assigning an object to it replaces
  the prototype of \<open>output\<close> without creating an own property. \<open>scoreIntents\<close> is
  the loop over the intents, in the order of the \<^verbatim>\<open>Set\<close>; \<^verbatim>\<open>Object.keys\<close> lists
  keys that look like integers before the others, which changes that order but neither
  the entries nor whether the call throws (lemma \<open>scoreIntents_Inr\<close> below). The
  second parameter of \<open>scoreConsensus\<close> is never read by the source.
\<close>

definition assignEntry ::
  "(string \<rightharpoonup> SelectorEntry) \<Rightarrow> string \<Rightarrow> SelectorEntry \<Rightarrow> (string \<rightharpoonup> SelectorEntry)" where
  "assignEntry output intent entry =
     (if intent = ''__proto__'' then output else output(intent \<mapsto> entry))"

fun scoreIntents ::
  "PageProbeResults list \<Rightarrow> string list \<Rightarrow> (string \<rightharpoonup> SelectorEntry)
     \<Rightarrow> js_error + (string \<rightharpoonup> SelectorEntry)" where
  "scoreIntents allPageResults [] output = Inr output"
| "scoreIntents allPageResults (intent # rest) output =
     (case scoreIntent allPageResults intent of
        Inl err \<Rightarrow> Inl err
      | Inr None \<Rightarrow> scoreIntents allPageResults rest output
      | Inr (Some entry) \<Rightarrow> scoreIntents allPageResults rest (assignEntry output intent entry))"

definition scoreConsensus ::
  "PageProbeResults list \<Rightarrow> (string \<rightharpoonup> VerifyMode) \<Rightarrow> js_error + (string \<rightharpoonup> SelectorEntry)" where
  "scoreConsensus allPageResults verifyModes =
     (if length allPageResults = 0 then Inr Map.empty
      else scoreIntents allPageResults (intentsOf allPageResults) Map.empty)"

section \<open>page-classifier.ts\<close>

text \<open>
  \<^verbatim>\<open>new URL(urlStr)\<close> is the platform's parser. The functions below take it as the
  parameter \<open>U\<close>: it returns the parsed components, or \<open>None\<close> where the constructor
  throws.
\<close>

record ParsedUrl =
  origin :: string
  pathname :: string
  search :: string
  hash :: string

type_synonym UrlParser = "string \<Rightarrow> ParsedUrl option"

datatype PageTypeKey = Home | Product | Category | Cart | Search | Other

fun pageTypeName :: "PageTypeKey \<Rightarrow> string" where
  "pageTypeName Home = ''home''"
| "pageTypeName Product = ''product''"
| "pageTypeName Category = ''category''"
| "pageTypeName Cart = ''cart''"
| "pageTypeName Search = ''search''"
| "pageTypeName Other = ''other''"

record PageTypeRule =
  urlPattern :: string
  domSignature :: "string option"
  jsonLdType :: "string option"
  label :: string
  ruleConfidence :: nat

datatype ClassificationMethod = Jsonld | Url | Dom | Fallback

record ClassificationResult =
  resultType :: PageTypeKey
  resultRule :: PageTypeRule
  resultMethod :: ClassificationMethod

text \<open>
  What the classifier reads from the browser page: the \<^verbatim>\<open>@type\<close> values that
  \<^verbatim>\<open>extractJsonLdTypes\<close> returns, and \<^verbatim>\<open>page.locator(sel).count()\<close> for a selector
  (\<open>None\<close> where it throws).
\<close>

record BrowserPage =
  jsonLdTypes :: "string list"
  locatorCount :: "string \<Rightarrow> nat option"

definition BSL :: char where
  "BSL = CHR 0x5C"

definition isUpperChar :: "char \<Rightarrow> bool" where
  "isUpperChar c = ((of_char CHR ''A'' :: int) \<le> of_char c \<and> (of_char c :: int) \<le> of_char CHR ''Z'')"

definition isLowerChar :: "char \<Rightarrow> bool" where
  "isLowerChar c = ((of_char CHR ''a'' :: int) \<le> of_char c \<and> (of_char c :: int) \<le> of_char CHR ''z'')"

definition isDigitChar :: "char \<Rightarrow> bool" where
  "isDigitChar c = ((of_char CHR ''0'' :: int) \<le> of_char c \<and> (of_char c :: int) \<le> of_char CHR ''9'')"

definition toLowerChar :: "char \<Rightarrow> char" where
  "toLowerChar c = (if isUpperChar c then char_of (of_char c + (32 :: int)) else c)"

definition toUpperChar :: "char \<Rightarrow> char" where
  "toUpperChar c = (if isLowerChar c then char_of (of_char c - (32 :: int)) else c)"

definition toLowerCase :: "string \<Rightarrow> string" where
  "toLowerCase s = map toLowerChar s"

text \<open>
  The flag \<^verbatim>\<open>i\<close>: every pattern of the sources that carries it is written in lower-case
  letters, so matching it without regard to case is matching the lower-cased subject.
\<close>

definition rx_test_i :: "rx \<Rightarrow> string \<Rightarrow> bool" where
  "rx_test_i r s = rx_test r (toLowerCase s)"

text \<open>\<^verbatim>\<open>s.split(d)\<close> for a one-character separator, and \<^verbatim>\<open>.split('/').filter(Boolean)\<close>.\<close>

fun splitOn :: "char \<Rightarrow> string \<Rightarrow> string list" where
  "splitOn d [] = [[]]"
| "splitOn d (c # cs) =
     (if c = d then [] # splitOn d cs
      else (case splitOn d cs of [] \<Rightarrow> [[c]] | w # ws \<Rightarrow> (c # w) # ws))"

definition pathSegments :: "string \<Rightarrow> string list" where
  "pathSegments p = filter (\<lambda>s. s \<noteq> []) (splitOn CHR ''/'' p)"

fun joinWith :: "string \<Rightarrow> string list \<Rightarrow> string" where
  "joinWith sep [] = []"
| "joinWith sep [x] = x"
| "joinWith sep (x # xs) = x @ sep @ joinWith sep xs"

definition jsonLdTypeToPageType :: "string list \<Rightarrow> PageTypeKey option" where
  "jsonLdTypeToPageType types =
     (let normalized = map toLowerCase types in
      if list_ex (\<lambda>t. t = ''product'' \<or> t = ''offer'' \<or> t = ''individualoffer'') normalized
        then Some Product
      else if list_ex (\<lambda>t. t = ''itemlist'' \<or> t = ''collectionpage'' \<or> t = ''productcollection''
                 \<or> t = ''offeraggregate'' \<or> t = ''aggregateoffer'') normalized
        then Some Category
      else if list_ex (\<lambda>t. t = ''order'' \<or> t = ''cart'' \<or> t = ''checkout'') normalized
        then Some Cart
      else if list_ex (\<lambda>t. t = ''website'' \<or> t = ''webpage'' \<or> t = ''webapplication'') normalized
        then Some Home
      else if list_ex (\<lambda>t. t = ''searchresultspage'') normalized
        then Some Search
      else None)"

definition rx_slash_or_end :: rx where
  \<comment> \<open>\<^verbatim>\<open>(\/|$)\<close>\<close>
  "rx_slash_or_end = Alt (rx_chr CHR ''/'') Eol"

definition rx_cart :: rx where
  \<comment> \<open>\<^verbatim>\<open>/\/(cart|basket|bag|trolley)(\/|$)/\<close>\<close>
  "rx_cart = rx_seqs [rx_chr CHR ''/'',
     rx_alts [rx_lit ''cart'', rx_lit ''basket'', rx_lit ''bag'', rx_lit ''trolley''],
     rx_slash_or_end]"

definition rx_search_kw :: rx where
  \<comment> \<open>\<^verbatim>\<open>/\/(search|find|results?)(\/|$)/\<close>\<close>
  "rx_search_kw = rx_seqs [rx_chr CHR ''/'',
     rx_alts [rx_lit ''search'', rx_lit ''find'', Seq (rx_lit ''result'') (rx_opt (rx_chr CHR ''s''))],
     rx_slash_or_end]"

definition rx_utility :: rx where
  \<comment> \<open>\<^verbatim>\<open>/\/(login|signin|signup|register|account|profile|orders?|wishlist|checkout|payment|thank-you|confirmation|404|about|blog|faq|policy|policies|terms|privacy|contact|careers|press|investor)/i\<close>\<close>
  "rx_utility = rx_seqs [rx_chr CHR ''/'',
     rx_alts [rx_lit ''login'', rx_lit ''signin'', rx_lit ''signup'', rx_lit ''register'',
       rx_lit ''account'', rx_lit ''profile'', Seq (rx_lit ''order'') (rx_opt (rx_chr CHR ''s'')),
       rx_lit ''wishlist'', rx_lit ''checkout'', rx_lit ''payment'', rx_lit ''thank-you'',
       rx_lit ''confirmation'', rx_lit ''404'', rx_lit ''about'', rx_lit ''blog'', rx_lit ''faq'',
       rx_lit ''policy'', rx_lit ''policies'', rx_lit ''terms'', rx_lit ''privacy'',
       rx_lit ''contact'', rx_lit ''careers'', rx_lit ''press'', rx_lit ''investor'']]"

definition rx_sku_run :: rx where
  \<comment> \<open>\<^verbatim>\<open>/[A-Z0-9]{4,}/\<close>\<close>
  "rx_sku_run = atLeast_rx 4 (Cls False [upper_AZ, digit_09])"

definition rx_long_slug :: rx where
  \<comment> \<open>\<^verbatim>\<open>/^[a-z0-9][a-z0-9-]{14,}$/\<close>\<close>
  "rx_long_slug = rx_seqs [Bol, Cls False [lower_az, digit_09],
     atLeast_rx 14 (Cls False [lower_az, digit_09, one_char CHR ''-'']), Eol]"

definition scoreUrlByType :: "UrlParser \<Rightarrow> string \<Rightarrow> PageTypeKey" where
  "scoreUrlByType U urlStr =
     (case U urlStr of
        None \<Rightarrow> Other
      | Some url \<Rightarrow>
         (let lower = toLowerCase (pathname url);
              parts = pathSegments (pathname url)
          in if rx_test rx_cart lower then Cart
             else if rx_test rx_search_kw lower \<or> str_includes (search url) ''q=''
                      \<or> str_includes (search url) ''query='' then Search
             else if rx_test_i rx_utility lower then Other
             else if length parts = 0 then Home
             else if length parts \<ge> 3 then Product
             else if length parts \<ge> 2 \<and> rx_test rx_sku_run (last parts) then Product
             else if length parts \<ge> 2 \<and> rx_test rx_long_slug (last parts) then Product
             else if length parts = 1 then Category
             else if length parts = 2 then Category
             else Other))"

text \<open>
  \<^verbatim>\<open>DOM_SIGNATURES\<close>, in the order in which \<^verbatim>\<open>Object.entries\<close> lists its keys.
\<close>

definition DOM_SIGNATURES :: "(PageTypeKey \<times> string list) list" where
  "DOM_SIGNATURES =
     [(Product, [''button[class*=\"add-to-cart\"]'', ''button[class*=\"addToCart\"]'',
                 ''button[name=\"add\"]'', ''[data-testid=\"add-to-cart\"]'',
                 ''[itemType*=\"Product\"]'']),
      (Category, [''[class*=\"product-card\"]'', ''[class*=\"productCard\"]'',
                  ''[class*=\"product-grid\"]'', ''[data-testid=\"product-card\"]'',
                  ''[class*=\"product-listing\"]'']),
      (Cart, [''[class*=\"cart-item\"]'', ''[class*=\"cartItem\"]'',
              ''[data-testid=\"cart-item\"]'', ''button[class*=\"checkout\"]'']),
      (Search, [''[class*=\"search-results\"]'', ''[class*=\"searchResults\"]'',
                ''[data-testid=\"search-results\"]'']),
      (Home, [''[class*=\"hero-banner\"]'', ''[class*=\"heroBanner\"]'',
              ''[class*=\"homepage\"]'', ''[class*=\"home-page\"]'']),
      (Other, [])]"

fun detectIn :: "BrowserPage \<Rightarrow> (PageTypeKey \<times> string list) list \<Rightarrow> PageTypeKey option" where
  "detectIn page [] = None"
| "detectIn page ((t, sels) # rest) =
     (if list_ex (\<lambda>sel. case locatorCount page sel of None \<Rightarrow> False | Some n \<Rightarrow> n > 0) sels
      then Some t else detectIn page rest)"

definition detectDomType :: "BrowserPage \<Rightarrow> PageTypeKey option" where
  "detectDomType page = detectIn page DOM_SIGNATURES"

text \<open>
  \<^verbatim>\<open>s.replace(/[.*+?^${}()|[\]\\]/g, '\\$&')\<close>: a backslash before each of the listed
  characters. \<open>BSL\<close> is the backslash.
\<close>

definition isRegexSpecial :: "char \<Rightarrow> bool" where
  "isRegexSpecial c = (c \<in> set ''.*+?^${}()|[]'' \<or> c = BSL)"

definition escapeRegex :: "string \<Rightarrow> string" where
  "escapeRegex s = concat (map (\<lambda>c. if isRegexSpecial c then [BSL, c] else [c]) s)"

definition SLASH :: string where
  \<comment> \<open>the two characters \<^verbatim>\<open>\/\<close>\<close>
  "SLASH = [BSL, CHR ''/'']"

definition WILDCARD :: string where
  "WILDCARD = ''[^/]+''"

definition SKU_CLASS :: string where
  "SKU_CLASS = ''[A-Z0-9]{4,}''"

definition HOME_PATTERN :: string where
  \<comment> \<open>\<^verbatim>\<open>^\/?$\<close>\<close>
  "HOME_PATTERN = ''^'' @ SLASH @ ''?$''"

definition buildUrlPattern :: "UrlParser \<Rightarrow> string \<Rightarrow> string" where
  "buildUrlPattern U urlStr =
     (case U urlStr of
        None \<Rightarrow> ''.*''
      | Some url \<Rightarrow>
         (let parts = pathSegments (pathname url) in
          if length parts = 0 then HOME_PATTERN
          else (let escaped = map escapeRegex (butlast parts);
                    prefix = (if length escaped > 0 then SLASH @ joinWith SLASH escaped else [])
                in prefix @ SLASH @ WILDCARD)))"

definition capitalize :: "string \<Rightarrow> string" where
  "capitalize s = (case s of [] \<Rightarrow> [] | c # cs \<Rightarrow> toUpperChar c # cs)"

definition classifyPage :: "UrlParser \<Rightarrow> BrowserPage \<Rightarrow> string \<Rightarrow> ClassificationResult" where
  "classifyPage U page urlStr =
     (case (if length (jsonLdTypes page) > 0 then jsonLdTypeToPageType (jsonLdTypes page) else None) of
        Some t \<Rightarrow>
          \<lparr>resultType = t,
           resultRule = \<lparr>urlPattern = buildUrlPattern U urlStr, domSignature = None,
                         jsonLdType = Some (hd (jsonLdTypes page)),
                         label = capitalize (pageTypeName t), ruleConfidence = 95\<rparr>,
           resultMethod = Jsonld\<rparr>
      | None \<Rightarrow>
         (let urlType = scoreUrlByType U urlStr in
          if urlType \<noteq> Other then
            \<lparr>resultType = urlType,
             resultRule = \<lparr>urlPattern = buildUrlPattern U urlStr, domSignature = None,
                           jsonLdType = None,
                           label = capitalize (pageTypeName urlType), ruleConfidence = 70\<rparr>,
             resultMethod = Url\<rparr>
          else (case detectDomType page of
                  Some domType \<Rightarrow>
                    \<lparr>resultType = domType,
                     resultRule = \<lparr>urlPattern = buildUrlPattern U urlStr, domSignature = None,
                                   jsonLdType = None,
                                   label = capitalize (pageTypeName domType), ruleConfidence = 55\<rparr>,
                     resultMethod = Dom\<rparr>
                | None \<Rightarrow>
                    \<lparr>resultType = Other,
                     resultRule = \<lparr>urlPattern = ''.*'', domSignature = None, jsonLdType = None,
                                   label = ''Other'', ruleConfidence = 0\<rparr>,
                     resultMethod = Fallback\<rparr>)))"

text \<open>
  A parser for the concrete inputs below: absolute \<^verbatim>\<open>http\<close> and \<^verbatim>\<open>https\<close> URLs that
  are already in the form the platform's parser prints (lower-case scheme and host, no
  default port, no dot segments, nothing to percent-encode). On these it returns what
  \<^verbatim>\<open>new URL\<close> returns: the origin up to the first \<^verbatim>\<open>/\<close>, \<^verbatim>\<open>?\<close> or \<^verbatim>\<open>#\<close> after the
  scheme, the path up to \<^verbatim>\<open>?\<close> or \<^verbatim>\<open>#\<close> (\<^verbatim>\<open>/\<close> when empty), the query from \<^verbatim>\<open>?\<close>
  and the fragment from \<^verbatim>\<open>#\<close>.
\<close>

definition notIn :: "string \<Rightarrow> char \<Rightarrow> bool" where
  "notIn cs c = (c \<notin> set cs)"

definition parseAfterScheme :: "string \<Rightarrow> string \<Rightarrow> ParsedUrl option" where
  "parseAfterScheme scheme rest =
     (let host = takeWhile (notIn ''/?#'') rest;
          r1 = dropWhile (notIn ''/?#'') rest;
          path = takeWhile (notIn ''?#'') r1;
          r2 = dropWhile (notIn ''?#'') r1;
          query = takeWhile (notIn ''#'') r2;
          frag = dropWhile (notIn ''#'') r2
      in if host = [] then None
         else Some \<lparr>origin = scheme @ host,
                    pathname = (if path = [] then ''/'' else path),
                    search = (if query = ''?'' then [] else query),
                    hash = (if frag = ''#'' then [] else frag)\<rparr>)"

definition parseHttpUrl :: UrlParser where
  "parseHttpUrl s =
     (if startsWith s ''https://'' then parseAfterScheme ''https://'' (drop 8 s)
      else if startsWith s ''http://'' then parseAfterScheme ''http://'' (drop 7 s)
      else None)"

section \<open>Compiling a pattern string\<close>

text \<open>
  \<^verbatim>\<open>new RegExp(pattern)\<close> for the syntax that the pattern builders of the sources emit:
  literal characters, a backslash before a punctuation character, classes with ranges,
  \<^verbatim>\<open>.\<close>, the anchors, groups, alternation and the quantifiers \<^verbatim>\<open>?\<close>, \<^verbatim>\<open>*\<close>,
  \<^verbatim>\<open>+\<close>, \<^verbatim>\<open>{n}\<close>, \<^verbatim>\<open>{n,}\<close>. The result is \<open>None\<close> for anything else (class
  escapes such as \<^verbatim>\<open>\d\<close>, group modifiers, lazy quantifiers, \<^verbatim>\<open>{n,m}\<close>) and for a
  pattern the constructor rejects.
\<close>

datatype rx_tok =
    TAtom rx
  | TAssert rx
  | TOpen
  | TClose
  | TBar
  | TStar
  | TPlus
  | TQuest
  | TExactly nat
  | TAtLeast nat

definition isAlnumChar :: "char \<Rightarrow> bool" where
  "isAlnumChar c = (isUpperChar c \<or> isLowerChar c \<or> isDigitChar c)"

fun classItems :: "string \<Rightarrow> (char \<times> char) list" where
  "classItems (a # m # b # cs) =
     (if m = CHR ''-'' then (a, b) # classItems cs else (a, a) # classItems (m # b # cs))"
| "classItems (a # cs) = (a, a) # classItems cs"
| "classItems [] = []"

definition classOf :: "string \<Rightarrow> rx" where
  "classOf body =
     (case body of
        [] \<Rightarrow> Cls False []
      | c # cs \<Rightarrow> if c = CHR ''^'' then Cls True (classItems cs) else Cls False (classItems body))"

fun digitsValue :: "nat \<Rightarrow> string \<Rightarrow> nat" where
  "digitsValue acc [] = acc"
| "digitsValue acc (c # cs) = digitsValue (10 * acc + nat (of_char c - of_char CHR ''0'')) cs"

definition braceOf :: "string \<Rightarrow> rx_tok option" where
  "braceOf body =
     (let ds = takeWhile isDigitChar body; after = dropWhile isDigitChar body
      in if ds = [] then None
         else if after = [] then Some (TExactly (digitsValue 0 ds))
         else if after = '','' then Some (TAtLeast (digitsValue 0 ds))
         else None)"

function rx_lex :: "string \<Rightarrow> rx_tok list option" where
  "rx_lex [] = Some []"
| "rx_lex (c # cs) =
     (if c = BSL then
        (case cs of
           [] \<Rightarrow> None
         | d # ds \<Rightarrow> if isAlnumChar d then None else map_option ((#) (TAtom (rx_chr d))) (rx_lex ds))
      else if c = CHR ''['' then
        (let body = takeWhile (\<lambda>x. x \<noteq> CHR '']'') cs
         in if length body = length cs \<or> BSL \<in> set body then None
            else map_option ((#) (TAtom (classOf body))) (rx_lex (drop (Suc (length body)) cs)))
      else if c = CHR ''{'' then
        (let body = takeWhile (\<lambda>x. x \<noteq> CHR ''}'') cs
         in if length body = length cs then None
            else (case braceOf body of
                    None \<Rightarrow> None
                  | Some q \<Rightarrow> map_option ((#) q) (rx_lex (drop (Suc (length body)) cs))))
      else if c = CHR ''('' then
        (case cs of
           [] \<Rightarrow> None
         | d # ds \<Rightarrow> if d = CHR ''?'' then None else map_option ((#) TOpen) (rx_lex cs))
      else if c = CHR '')'' then map_option ((#) TClose) (rx_lex cs)
      else if c = CHR ''|'' then map_option ((#) TBar) (rx_lex cs)
      else if c = CHR ''*'' then map_option ((#) TStar) (rx_lex cs)
      else if c = CHR ''+'' then map_option ((#) TPlus) (rx_lex cs)
      else if c = CHR ''?'' then map_option ((#) TQuest) (rx_lex cs)
      else if c = CHR ''^'' then map_option ((#) (TAssert Bol)) (rx_lex cs)
      else if c = CHR ''$'' then map_option ((#) (TAssert Eol)) (rx_lex cs)
      else if c = CHR ''.'' then
        map_option ((#) (TAtom (Cls True [one_char (CHR 0x0A), one_char (CHR 0x0D)]))) (rx_lex cs)
      else map_option ((#) (TAtom (rx_chr c))) (rx_lex cs))"
  by pat_completeness auto
termination
  by (relation "measure length") auto

text \<open>
  The tokens are assembled with a stack of open groups. A frame holds the finished
  alternatives of its group and the items of the alternative being read, both newest
  first. The flag tells whether the last item can take a quantifier.
\<close>

type_synonym rx_frame = "rx list \<times> rx list"

definition frameRx :: "rx_frame \<Rightarrow> rx" where
  "frameRx f = rx_alts (rev (rx_seqs (rev (snd f)) # fst f))"

definition pushItem :: "rx \<Rightarrow> rx_frame \<Rightarrow> rx_frame" where
  "pushItem r f = (fst f, r # snd f)"

definition quantify :: "(rx \<Rightarrow> rx) \<Rightarrow> rx_frame \<Rightarrow> rx_frame" where
  "quantify q f = (case snd f of [] \<Rightarrow> f | r # rs \<Rightarrow> (fst f, q r # rs))"

definition exactly_rx :: "nat \<Rightarrow> rx \<Rightarrow> rx" where
  "exactly_rx n r = rx_seqs (replicate n r)"

fun rx_build :: "rx_tok list \<Rightarrow> bool \<Rightarrow> rx_frame list \<Rightarrow> rx option" where
  "rx_build [] q [f] = Some (frameRx f)"
| "rx_build [] q fs = None"
| "rx_build (t # ts) q [] = None"
| "rx_build (TAtom r # ts) q (f # fs) = rx_build ts True (pushItem r f # fs)"
| "rx_build (TAssert r # ts) q (f # fs) = rx_build ts False (pushItem r f # fs)"
| "rx_build (TOpen # ts) q (f # fs) = rx_build ts False (([], []) # f # fs)"
| "rx_build (TClose # ts) q [f] = None"
| "rx_build (TClose # ts) q (f # g # fs) = rx_build ts True (pushItem (frameRx f) g # fs)"
| "rx_build (TBar # ts) q (f # fs) = rx_build ts False ((rx_seqs (rev (snd f)) # fst f, []) # fs)"
| "rx_build (TStar # ts) q (f # fs) = (if q then rx_build ts False (quantify Star f # fs) else None)"
| "rx_build (TPlus # ts) q (f # fs) = (if q then rx_build ts False (quantify rx_plus f # fs) else None)"
| "rx_build (TQuest # ts) q (f # fs) = (if q then rx_build ts False (quantify rx_opt f # fs) else None)"
| "rx_build (TExactly n # ts) q (f # fs) =
     (if q then rx_build ts False (quantify (exactly_rx n) f # fs) else None)"
| "rx_build (TAtLeast n # ts) q (f # fs) =
     (if q then rx_build ts False (quantify (atLeast_rx n) f # fs) else None)"

definition rx_compile :: "string \<Rightarrow> rx option" where
  "rx_compile pattern =
     (case rx_lex pattern of None \<Rightarrow> None | Some ts \<Rightarrow> rx_build ts False [([], [])])"

text \<open>\<^verbatim>\<open>new RegExp(pattern).test(s)\<close>, where the pattern is in the supported syntax.\<close>

definition patternTest :: "string \<Rightarrow> string \<Rightarrow> bool option" where
  "patternTest pattern s = map_option (\<lambda>r. rx_test r s) (rx_compile pattern)"

section \<open>url-registry-builder.ts: pattern derivation\<close>

record ProductUrl =
  name :: string
  url :: string
  category :: string

record CategoryUrl =
  catName :: string
  catUrl :: string

record ValidatedPattern =
  pageType :: PageTypeKey
  pattern :: string
  examples :: "string list"

record UrlRegistry =
  products :: "ProductUrl list"
  categories :: "CategoryUrl list"
  validatedPatterns :: "ValidatedPattern list"

record PathCluster =
  clusterPattern :: string
  clusterExamples :: "string list"

text \<open>
  The groups are a \<^verbatim>\<open>Map\<close> keyed by the signature \<^verbatim>\<open>`${segments.length}:${segments[0]}`\<close>.
  The signature is modelled as the pair of the depth and the first segment: the string
  determines both (the depth is what \<^verbatim>\<open>parseInt\<close> reads back before the first colon).
  The association list keeps the keys in the order of their first insertion.
\<close>

type_synonym PathGroups = "((nat \<times> string) \<times> string list) list"

definition addToGroups :: "PathGroups \<Rightarrow> string \<Rightarrow> PathGroups" where
  "addToGroups groups path =
     (let segments = pathSegments path in
      if length segments = 0 then groups
      else (let sig = (length segments, hd segments) in
            if map_of groups sig = None then groups @ [(sig, [path])]
            else map (\<lambda>(k, members). if k = sig then (k, members @ [path]) else (k, members)) groups))"

definition groupPaths :: "string list \<Rightarrow> PathGroups" where
  "groupPaths paths = foldl addToGroups [] paths"

definition rx_sku_segment :: rx where
  \<comment> \<open>\<^verbatim>\<open>/^[A-Z0-9]{4,}$/\<close>\<close>
  "rx_sku_segment = rx_seqs [Bol, atLeast_rx 4 (Cls False [upper_AZ, digit_09]), Eol]"

text \<open>
  \<^verbatim>\<open>memberPaths.map(p => p.split('/').filter(Boolean)[i]).filter(Boolean)\<close>: an index
  past the end reads \<^verbatim>\<open>undefined\<close>, which the filter drops.
\<close>

definition segmentAt :: "nat \<Rightarrow> string \<Rightarrow> string list" where
  "segmentAt i p = (let segs = pathSegments p in if i < length segs then [segs ! i] else [])"

definition segmentPattern :: "string list \<Rightarrow> nat \<Rightarrow> string" where
  "segmentPattern memberPaths i =
     (let segValues = filter (\<lambda>s. s \<noteq> []) (concat (map (segmentAt i) memberPaths)) in
      if length (remdups segValues) = 1 then escapeRegex (hd segValues)
      else if list_all (rx_test rx_sku_segment) segValues then SKU_CLASS
      else WILDCARD)"

definition clusterOf :: "(nat \<times> string) \<times> string list \<Rightarrow> PathCluster" where
  "clusterOf g =
     (let depth = fst (fst g); memberPaths = snd g in
      \<lparr>clusterPattern = SLASH @ joinWith SLASH (map (segmentPattern memberPaths) [0..<depth]),
       clusterExamples = take 5 memberPaths\<rparr>)"

definition genericPatternOf :: "string \<Rightarrow> string list" where
  "genericPatternOf path =
     (let segments = pathSegments path in
      if length segments \<ge> 2
      then [SLASH @ escapeRegex (hd segments) @ concat (map (\<lambda>_. SLASH @ WILDCARD) (tl segments))]
      else [])"

text \<open>
  \<^verbatim>\<open>pat.match(/\\\/([^\\]+)/)?.[1]\<close>: at the leftmost backslash that is followed by a
  slash and one more character other than a backslash, the longest run of characters
  other than a backslash after that slash; \<^verbatim>\<open>undefined\<close> when there is none.
\<close>

fun firstSegmentOfPattern :: "string \<Rightarrow> string option" where
  "firstSegmentOfPattern [] = None"
| "firstSegmentOfPattern (c # cs) =
     (if c = BSL \<and> (case cs of d # e # _ \<Rightarrow> d = CHR ''/'' \<and> e \<noteq> BSL | _ \<Rightarrow> False)
      then Some (takeWhile (\<lambda>x. x \<noteq> BSL) (tl cs))
      else firstSegmentOfPattern cs)"

definition firstSegment :: "string \<Rightarrow> string option" where
  \<comment> \<open>\<^verbatim>\<open>p.split('/').filter(Boolean)[0]\<close>\<close>
  "firstSegment p = (case pathSegments p of [] \<Rightarrow> None | s # _ \<Rightarrow> Some s)"

definition singletonCluster :: "string list \<Rightarrow> string \<Rightarrow> PathCluster" where
  "singletonCluster paths pat =
     \<lparr>clusterPattern = pat,
      clusterExamples = take 3 (filter (\<lambda>p. firstSegment p = firstSegmentOfPattern pat) paths)\<rparr>"

definition clusterPaths :: "string list \<Rightarrow> PathCluster list" where
  "clusterPaths paths =
     (let clusters = map clusterOf (filter (\<lambda>g. length (snd g) \<ge> 2) (groupPaths paths)) in
      if length clusters = 0 \<and> length paths > 0
      then map (singletonCluster paths) (uniqueInOrder [] (concat (map genericPatternOf paths)))
      else clusters)"

text \<open>
  \<^verbatim>\<open>xs.map(p => { try { return new URL(p.url).pathname } catch { return null } }).filter(Boolean)\<close>:
  a URL that does not parse and an empty path are dropped.
\<close>

definition pathsOf :: "UrlParser \<Rightarrow> string list \<Rightarrow> string list" where
  "pathsOf U urls =
     filter (\<lambda>p. p \<noteq> [])
       (concat (map (\<lambda>u. case U u of None \<Rightarrow> [] | Some parsed \<Rightarrow> [pathname parsed]) urls))"

definition CART_PATTERN :: string where
  \<comment> \<open>\<^verbatim>\<open>^\/cart\/?\<close>\<close>
  "CART_PATTERN = ''^'' @ SLASH @ ''cart'' @ SLASH @ ''?''"

definition SEARCH_PATTERN :: string where
  \<comment> \<open>\<^verbatim>\<open>^\/search\<close>\<close>
  "SEARCH_PATTERN = ''^'' @ SLASH @ ''search''"

definition productPatterns :: "UrlParser \<Rightarrow> ProductUrl list \<Rightarrow> ValidatedPattern list" where
  "productPatterns U prods =
     (let productPaths = pathsOf U (map url prods) in
      if length productPaths > 0
      then map (\<lambda>pp. \<lparr>pageType = Product, pattern = clusterPattern pp,
                        examples = take 3 (clusterExamples pp)\<rparr>) (clusterPaths productPaths)
      else [])"

definition categoryPatterns :: "UrlParser \<Rightarrow> CategoryUrl list \<Rightarrow> ValidatedPattern list" where
  "categoryPatterns U cats =
     (let catPaths = pathsOf U (map catUrl cats) in
      if length catPaths > 0
      then (let singleSegCats = filter (\<lambda>p. length (pathSegments p) = 1) catPaths;
                slugs = map escapeRegex
                          (filter (\<lambda>s. s \<noteq> []) (map (\<lambda>p. hd (pathSegments p)) singleSegCats));
                multiSegCats = filter (\<lambda>p. length (pathSegments p) > 1) catPaths
            in (if length singleSegCats \<ge> 3
                then [\<lparr>pageType = Category,
                       pattern = ''^'' @ SLASH @ ''('' @ joinWith ''|'' slugs @ '')'' @ SLASH @ ''?$'',
                       examples = take 5 singleSegCats\<rparr>]
                else [])
               @ map (\<lambda>cp. \<lparr>pageType = Category, pattern = clusterPattern cp,
                              examples = take 3 (clusterExamples cp)\<rparr>) (clusterPaths multiSegCats))
      else [])"

definition deriveUrlPatterns ::
  "UrlParser \<Rightarrow> ProductUrl list \<Rightarrow> CategoryUrl list \<Rightarrow> string \<Rightarrow> ValidatedPattern list" where
  "deriveUrlPatterns U prods cats orig =
     [\<lparr>pageType = Home, pattern = HOME_PATTERN, examples = [orig]\<rparr>]
     @ productPatterns U prods
     @ categoryPatterns U cats
     @ [\<lparr>pageType = Cart, pattern = CART_PATTERN, examples = [orig @ ''/cart'']\<rparr>,
        \<lparr>pageType = Search, pattern = SEARCH_PATTERN, examples = [orig @ ''/search-result'']\<rparr>]"

section \<open>url-registry-builder.ts: extraction and the registry\<close>

text \<open>
  What \<^verbatim>\<open>extractProductUrls\<close> reads from the document. An anchor carries the result of
  \<^verbatim>\<open>new URL(a.href, document.baseURI)\<close> (\<open>None\<close> where it throws), whether it contains
  an image or a title element, its size and its text. A card carries its anchors and the
  text of its name element (empty when there is none). The document answers
  \<^verbatim>\<open>querySelectorAll\<close> for a card selector and lists all its anchors.
\<close>

record Anchor =
  resolved :: "ParsedUrl option"
  hasImg :: bool
  hasTitleEl :: bool
  offsetWidth :: int
  offsetHeight :: int
  anchorText :: string

record Card =
  cardLinks :: "Anchor list"
  nameText :: string

record PageDom =
  cardsFor :: "string \<Rightarrow> Card list"
  allLinks :: "Anchor list"

text \<open>
  The platform and the two name filters. The noise patterns of the product names range
  over currency symbols outside ASCII, and the names decide nothing but whether an
  entry is kept: \<open>stripNameNoise\<close> stands for the chain of replacements, \<^verbatim>\<open>trim\<close> and
  \<^verbatim>\<open>slice(0, 120)\<close> inside \<^verbatim>\<open>extractProductUrls\<close>, and \<open>cleanName\<close> for
  \<^verbatim>\<open>cleanProductName\<close>. Every statement below holds for all three parameters.
\<close>

record Platform =
  parseUrl :: UrlParser
  stripNameNoise :: "string \<Rightarrow> string"
  cleanName :: "string \<Rightarrow> string"

definition isSpaceChar :: "char \<Rightarrow> bool" where
  "isSpaceChar c = (c \<in> set [CHR '' '', CHR 0x09, CHR 0x0A, CHR 0x0B, CHR 0x0C, CHR 0x0D])"

definition trim :: "string \<Rightarrow> string" where
  "trim s = rev (dropWhile isSpaceChar (rev (dropWhile isSpaceChar s)))"

definition cardSelectors :: "string list" where
  "cardSelectors =
     [''[class*=\"product-card\"]'', ''[class*=\"productCard\"]'', ''[class*=\"product-item\"]'',
      ''[class*=\"productItem\"]'', ''[class*=\"card-item\"]'', ''li[class*=\"product\"]'',
      ''[class*=\"collection-item\"]'']"

fun findCards :: "PageDom \<Rightarrow> string list \<Rightarrow> Card list" where
  "findCards doc [] = []"
| "findCards doc (sel # sels) =
     (if length (cardsFor doc sel) > 2 then cardsFor doc sel else findCards doc sels)"

record ScoredLink =
  linkEl :: Anchor
  linkHref :: string
  score :: rat

definition rx_sku5 :: rx where
  \<comment> \<open>\<^verbatim>\<open>/[A-Z0-9]{5,}/\<close>\<close>
  "rx_sku5 = atLeast_rx 5 (Cls False [upper_AZ, digit_09])"

definition rx_action_link :: rx where
  \<comment> \<open>\<^verbatim>\<open>/quickview|wishlist|compare|share|#/\<close>\<close>
  "rx_action_link = rx_alts [rx_lit ''quickview'', rx_lit ''wishlist'', rx_lit ''compare'',
     rx_lit ''share'', rx_lit ''#'']"

definition rx_store_card :: rx where
  \<comment> \<open>\<^verbatim>\<open>/\/furniture-store\/|\/business\/|\/bulk-order/i\<close>\<close>
  "rx_store_card = rx_alts [rx_lit ''/furniture-store/'', rx_lit ''/business/'', rx_lit ''/bulk-order'']"

definition rx_store_page :: rx where
  \<comment> \<open>\<^verbatim>\<open>/\/furniture-store\/|\/business\/|\/bulk-order|\/store\/|\/stores\//i\<close>\<close>
  "rx_store_page = rx_alts [rx_lit ''/furniture-store/'', rx_lit ''/business/'', rx_lit ''/bulk-order'',
     rx_lit ''/store/'', rx_lit ''/stores/'']"

definition rx_skip_link :: rx where
  \<comment> \<open>\<^verbatim>\<open>/\/(cart|account|login|checkout|blog|faq|policy)/\<close>\<close>
  "rx_skip_link = Seq (rx_chr CHR ''/'')
     (rx_alts [rx_lit ''cart'', rx_lit ''account'', rx_lit ''login'', rx_lit ''checkout'',
        rx_lit ''blog'', rx_lit ''faq'', rx_lit ''policy''])"

text \<open>
  The links of a card that lie on the crawled origin, each with
  \<^verbatim>\<open>href: u.origin + u.pathname\<close>.
\<close>

definition originLinks :: "string \<Rightarrow> Card \<Rightarrow> ScoredLink list" where
  "originLinks orig cardEl =
     concat (map (\<lambda>a. case resolved a of
                         None \<Rightarrow> []
                       | Some u \<Rightarrow> if origin u = orig
                                   then [\<lparr>linkEl = a, linkHref = origin u @ pathname u, score = 0\<rparr>]
                                   else [])
                 (cardLinks cardEl))"

text \<open>
  The score of one link; \<open>None\<close> where \<^verbatim>\<open>new URL(link.href)\<close> throws. The
  sizes are integers and the score is computed exactly; the source adds doubles, so two
  links whose exact scores differ by less than a rounding error can compare differently
  there, and the best link of a card can then be another link of the same card. The
  statements below hold for whichever link of a card is chosen.
\<close>

definition scoreLink :: "Platform \<Rightarrow> ScoredLink \<Rightarrow> ScoredLink option" where
  "scoreLink P link =
     (case parseUrl P (linkHref link) of
        None \<Rightarrow> None
      | Some parsed \<Rightarrow>
         (let segments = pathSegments (pathname parsed);
              el = linkEl link;
              lastSegment = (if segments = [] then [] else last segments);
              s1 = (if hasImg el then 50 else 0);
              s2 = (if hasTitleEl el then 40 else 0);
              s3 = (if length segments > 2 then 30 else 0);
              s4 = (if rx_test rx_sku5 lastSegment then 100 else 0);
              s5 = (if offsetWidth el > 0 \<and> offsetHeight el > 0
                    then of_int (offsetWidth el * offsetHeight el) / 1000 else 0);
              s6 = (if rx_test rx_action_link (toLowerCase (linkHref link)) then 100 else 0)
          in Some (link\<lparr>score := s1 + s2 + s3 + s4 + s5 - s6\<rparr>)))"

fun allSome :: "'a option list \<Rightarrow> 'a list option" where
  "allSome [] = Some []"
| "allSome (None # xs) = None"
| "allSome (Some x # xs) = map_option ((#) x) (allSome xs)"

text \<open>
  One card of the first strategy, on the results and the set of links seen so far;
  \<open>None\<close> where the script throws.
\<close>

definition processCard ::
  "Platform \<Rightarrow> string \<Rightarrow> string \<Rightarrow> Card \<Rightarrow> ProductUrl list \<times> string set
     \<Rightarrow> (ProductUrl list \<times> string set) option" where
  "processCard P orig categoryName cardEl st =
     (case allSome (map (scoreLink P) (originLinks orig cardEl)) of
        None \<Rightarrow> None
      | Some scored \<Rightarrow>
         (case sortBy (\<lambda>a b. score b - score a) scored of
            [] \<Rightarrow> Some st
          | bestLink # _ \<Rightarrow>
             if linkHref bestLink \<in> snd st then Some st
             else (let seen = insert (linkHref bestLink) (snd st);
                       rawName = stripNameNoise P (trim (nameText cardEl))
                   in if rawName = [] \<or> length rawName < 3 then Some (fst st, seen)
                      else (case parseUrl P (linkHref bestLink) of
                              None \<Rightarrow> None
                            | Some parsed \<Rightarrow>
                               if rx_test_i rx_store_card (toLowerCase (pathname parsed))
                               then Some (fst st, seen)
                               else Some (fst st @ [\<lparr>name = rawName, url = linkHref bestLink,
                                                       category = categoryName\<rparr>], seen)))))"

fun processCards ::
  "Platform \<Rightarrow> string \<Rightarrow> string \<Rightarrow> Card list \<Rightarrow> ProductUrl list \<times> string set
     \<Rightarrow> (ProductUrl list \<times> string set) option" where
  "processCards P orig categoryName [] st = Some st"
| "processCards P orig categoryName (cardEl # cards) st =
     (case processCard P orig categoryName cardEl st of
        None \<Rightarrow> None
      | Some st' \<Rightarrow> processCards P orig categoryName cards st')"

text \<open>One anchor of the second strategy; an exception skips the anchor.\<close>

definition scanLink ::
  "string \<Rightarrow> string \<Rightarrow> ProductUrl list \<times> string set \<Rightarrow> Anchor \<Rightarrow> ProductUrl list \<times> string set" where
  "scanLink orig categoryName st a =
     (case resolved a of
        None \<Rightarrow> st
      | Some u \<Rightarrow>
         (let cleanUrl = origin u @ pathname u; atext = trim (anchorText a) in
          if origin u \<noteq> orig then st
          else if cleanUrl \<in> snd st then st
          else if length (pathSegments (pathname u)) < 2 then st
          else if rx_test rx_skip_link (pathname u) then st
          else if atext = [] \<or> length atext > 120 \<or> length atext < 3 then st
          else (fst st @ [\<lparr>name = atext, url = cleanUrl, category = categoryName\<rparr>],
                insert cleanUrl (snd st))))"

definition extractProductUrls ::
  "Platform \<Rightarrow> PageDom \<Rightarrow> string \<Rightarrow> string \<Rightarrow> ProductUrl list option" where
  "extractProductUrls P doc orig categoryName =
     (case processCards P orig categoryName (findCards doc cardSelectors) ([], {}) of
        None \<Rightarrow> None
      | Some st \<Rightarrow>
         if length (fst st) = 0
         then Some (fst (foldl (scanLink orig categoryName) st (allLinks doc)))
         else Some (fst st))"

record NavEdge =
  navLabel :: string
  href :: string
  navSelector :: "string option"
  targetPageType :: PageTypeKey

text \<open>
  What the browser shows while one category page is crawled: the document after loading
  and scrolling (\<open>None\<close> where a step before or during the first extraction throws),
  the answer to the test for a pagination control (\<open>None\<close> where it throws), and the
  outcome of each later attempt to click it, by the number of clicks made before: no
  visible button, the document after the click, or an exception.
\<close>

datatype PageStep = NoButton | Clicked PageDom | Threw

record CategoryVisit =
  firstDoc :: "PageDom option"
  hasMore :: "bool option"
  laterSteps :: "nat \<Rightarrow> PageStep"

text \<open>
  The crawl state is the set \<^verbatim>\<open>seenProductUrls\<close> and the array \<^verbatim>\<open>products\<close>; both are
  shared with \<^verbatim>\<open>crawlPaginatedProducts\<close>, which mutates them in place.
\<close>

type_synonym CrawlState = "string set \<times> ProductUrl list"

fun addCapped :: "nat \<Rightarrow> ProductUrl list \<Rightarrow> nat \<Rightarrow> CrawlState \<Rightarrow> CrawlState" where
  "addCapped maxN [] added st = st"
| "addCapped maxN (p # ps) added st =
     (if url p \<in> fst st then addCapped maxN ps added st
      else if added \<ge> maxN then st
      else addCapped maxN ps (added + 1) (insert (url p) (fst st), snd st @ [p]))"

fun addNew :: "ProductUrl list \<Rightarrow> nat \<Rightarrow> CrawlState \<Rightarrow> CrawlState \<times> nat" where
  "addNew [] added st = (st, added)"
| "addNew (p # ps) added st =
     (if url p \<in> fst st then addNew ps added st
      else addNew ps (added + 1) (insert (url p) (fst st), snd st @ [p]))"

function crawlPaginatedProducts ::
  "Platform \<Rightarrow> string \<Rightarrow> string \<Rightarrow> nat \<Rightarrow> (nat \<Rightarrow> PageStep) \<Rightarrow> nat \<Rightarrow> CrawlState \<Rightarrow> CrawlState" where
  "crawlPaginatedProducts P orig categoryName maxTotal steps pages st =
     (if pages < 5 \<and> length (snd st) < maxTotal then
        (case steps pages of
           NoButton \<Rightarrow> st
         | Threw \<Rightarrow> st
         | Clicked doc \<Rightarrow>
            (case extractProductUrls P doc orig categoryName of
               None \<Rightarrow> st
             | Some pageProducts \<Rightarrow>
                (if snd (addNew pageProducts 0 st) = 0 then fst (addNew pageProducts 0 st)
                 else crawlPaginatedProducts P orig categoryName maxTotal steps (pages + 1)
                        (fst (addNew pageProducts 0 st)))))
      else st)"
  by pat_completeness auto
termination
  by (relation "measure (\<lambda>(P, orig, categoryName, maxTotal, steps, pages, st). 5 - pages)") auto

definition keepProduct :: "Platform \<Rightarrow> ProductUrl \<Rightarrow> bool" where
  "keepProduct P p =
     (case parseUrl P (url p) of
        None \<Rightarrow> False
      | Some parsed \<Rightarrow>
         if rx_test_i rx_store_page (toLowerCase (pathname parsed)) then False
         else if name p = [] \<or> length (name p) < 3 then False
         else True)"

definition visitCategory ::
  "Platform \<Rightarrow> (string \<Rightarrow> CategoryVisit) \<Rightarrow> string \<Rightarrow> nat \<Rightarrow> CrawlState \<Rightarrow> CategoryUrl \<Rightarrow> CrawlState" where
  "visitCategory P browse orig maxProductsPerCategory st cat =
     (let v = browse (catUrl cat) in
      case firstDoc v of
        None \<Rightarrow> st
      | Some doc \<Rightarrow>
         (case extractProductUrls P doc orig (catName cat) of
            None \<Rightarrow> st
          | Some rawProducts \<Rightarrow>
             (let pageProducts =
                    filter (keepProduct P) (map (\<lambda>p. p\<lparr>name := cleanName P (name p)\<rparr>) rawProducts);
                  st1 = addCapped maxProductsPerCategory pageProducts 0 st
              in case hasMore v of
                   Some True \<Rightarrow>
                     crawlPaginatedProducts P orig (catName cat) maxProductsPerCategory
                       (laterSteps v) 0 st1
                 | _ \<Rightarrow> st1)))"

fun dedupeByUrl :: "string set \<Rightarrow> CategoryUrl list \<Rightarrow> CategoryUrl list" where
  "dedupeByUrl seenCatUrls [] = []"
| "dedupeByUrl seenCatUrls (c # cs) =
     (if catUrl c \<in> seenCatUrls then dedupeByUrl seenCatUrls cs
      else c # dedupeByUrl (insert (catUrl c) seenCatUrls) cs)"

text \<open>
  \<^verbatim>\<open>validateUrls\<close> only counts and logs; it changes neither list, and is left out.
  \<open>maxOpt\<close> is the optional \<^verbatim>\<open>maxProductsPerCategory\<close>, 200 when absent.
\<close>

definition buildUrlRegistry ::
  "Platform \<Rightarrow> (string \<Rightarrow> CategoryVisit) \<Rightarrow> string \<Rightarrow> NavEdge list \<Rightarrow> nat option \<Rightarrow> UrlRegistry" where
  "buildUrlRegistry P browse orig mainNav maxOpt =
     (let maxProductsPerCategory = (case maxOpt of None \<Rightarrow> 200 | Some m \<Rightarrow> m);
          allCategoryUrls = map (\<lambda>n. \<lparr>catName = navLabel n, catUrl = href n\<rparr>)
                              (filter (\<lambda>n. targetPageType n = Category \<and> href n \<noteq> []) mainNav);
          categoryUrls = take 20 (dedupeByUrl {} allCategoryUrls);
          st = foldl (visitCategory P browse orig maxProductsPerCategory) ({}, []) categoryUrls
      in \<lparr>products = snd st, categories = categoryUrls,
          validatedPatterns = deriveUrlPatterns (parseUrl P) (snd st) categoryUrls orig\<rparr>)"

section \<open>Notions of the specification and concrete inputs\<close>

text \<open>
  \<open>collectStats\<close> are the statistics that the loop over the pages leaves for an intent
  (none where it throws), and \<open>qualifiedSels\<close> the part of them that the filter, the
  sort and the cut keep. The specification speaks of the samples on which a selector
  passed content verification, and of its ratio to the number of samples.
  \<open>ownProbes\<close> are the probes that a page lists under an intent, and the candidates
  of an intent are its probed selectors in the order in which they are first probed.
  The call returns normally when it does not throw. \<open>entryFor\<close> is the entry of an
  intent in the returned object (none where the call throws); a selector is discarded
  when there is no entry for the intent or the entry's chain does not hold it.
\<close>

definition collectStats :: "PageProbeResults list \<Rightarrow> string \<Rightarrow> (string \<times> SelectorStats) list" where
  "collectStats allPageResults intent =
     (case tallyPages allPageResults intent ([], 0) of Inl err \<Rightarrow> [] | Inr tally \<Rightarrow> fst tally)"

definition qualifiedSels :: "PageProbeResults list \<Rightarrow> string \<Rightarrow> (string \<times> SelectorStats) list" where
  "qualifiedSels allPageResults intent =
     take MAX_FALLBACKS
       (sortBy compareStats
         (filter (passesThreshold (length allPageResults)) (collectStats allPageResults intent)))"

definition ownProbes :: "PageProbeResults \<Rightarrow> string \<Rightarrow> ProbeResult list" where
  "ownProbes pageResult intent = (case map_of pageResult intent of None \<Rightarrow> [] | Some ps \<Rightarrow> ps)"

definition verifiedOn :: "PageProbeResults list \<Rightarrow> string \<Rightarrow> string \<Rightarrow> nat" where
  "verifiedOn allPageResults intent sel =
     length (filter (\<lambda>pageResult. list_ex (\<lambda>p. selector p = sel \<and> verified p) (ownProbes pageResult intent))
               allPageResults)"

definition verifiedRatio :: "PageProbeResults list \<Rightarrow> string \<Rightarrow> string \<Rightarrow> rat" where
  "verifiedRatio allPageResults intent sel =
     of_nat (verifiedOn allPageResults intent sel) / of_nat (length allPageResults)"

definition allProbes :: "PageProbeResults list \<Rightarrow> string \<Rightarrow> ProbeResult list" where
  "allProbes allPageResults intent = concat (map (\<lambda>pageResult. ownProbes pageResult intent) allPageResults)"

definition candidates :: "PageProbeResults list \<Rightarrow> string \<Rightarrow> string list" where
  "candidates allPageResults intent = uniqueInOrder [] (map selector (allProbes allPageResults intent))"

definition entryFor :: "PageProbeResults list \<Rightarrow> string \<Rightarrow> SelectorEntry option" where
  "entryFor allPageResults intent =
     (case scoreConsensus allPageResults Map.empty of Inl err \<Rightarrow> None | Inr output \<Rightarrow> output intent)"

definition returnsNormally :: "PageProbeResults list \<Rightarrow> bool" where
  "returnsNormally allPageResults =
     (case scoreConsensus allPageResults Map.empty of Inl err \<Rightarrow> False | Inr output \<Rightarrow> True)"

definition discarded :: "PageProbeResults list \<Rightarrow> string \<Rightarrow> string \<Rightarrow> bool" where
  "discarded allPageResults intent sel =
     (case entryFor allPageResults intent of
        None \<Rightarrow> True
      | Some e \<Rightarrow> sel \<notin> set (selectors e))"

text \<open>
  The ranking of the comment ``sort by (contentCount DESC, selectorScore DESC)'', with
  the stable sort's rule for ties: a selector outranks another when it passed
  verification on more samples, or on as many and its stability score is higher, or on
  as many with the same score and it was probed first.
\<close>

fun elemsBefore :: "'a \<Rightarrow> 'a list \<Rightarrow> 'a list" where
  "elemsBefore x [] = []"
| "elemsBefore x (z # zs) = (if z = x then [] else z # elemsBefore x zs)"

definition probedBefore :: "PageProbeResults list \<Rightarrow> string \<Rightarrow> string \<Rightarrow> string \<Rightarrow> bool" where
  "probedBefore allPageResults intent s' s =
     (s' \<in> set (elemsBefore s (candidates allPageResults intent)))"

definition outranks :: "PageProbeResults list \<Rightarrow> string \<Rightarrow> string \<Rightarrow> string \<Rightarrow> bool" where
  "outranks allPageResults intent s' s =
     (verifiedOn allPageResults intent s < verifiedOn allPageResults intent s'
      \<or> (verifiedOn allPageResults intent s' = verifiedOn allPageResults intent s
         \<and> (stabilityScore s < stabilityScore s'
            \<or> (stabilityScore s' = stabilityScore s \<and> probedBefore allPageResults intent s' s))))"

definition outrankedBy :: "PageProbeResults list \<Rightarrow> string \<Rightarrow> string \<Rightarrow> nat" where
  "outrankedBy allPageResults intent sel =
     length (filter (\<lambda>s'. outranks allPageResults intent s' sel) (candidates allPageResults intent))"

text \<open>
  Two properties of an input: no page lists a selector twice under the intent (the
  prober pushes one probe for each candidate of an intent), and no intent carries the
  name of a member of \<^verbatim>\<open>Object.prototype\<close>.
\<close>

definition listedOnce :: "PageProbeResults list \<Rightarrow> string \<Rightarrow> bool" where
  "listedOnce allPageResults intent =
     list_all (\<lambda>pageResult. distinct (map selector (ownProbes pageResult intent))) allPageResults"

definition plainIntents :: "PageProbeResults list \<Rightarrow> bool" where
  "plainIntents allPageResults =
     list_all (\<lambda>intent. intent \<notin> set objectPrototypeKeys) (intentsOf allPageResults)"

text \<open>
  Three samples of a price field, as in Scenario C; one page with six verified
  selectors of the same stability score; two pages with seven selectors that differ in
  the number of samples on which they passed and in their stability scores; a selector
  verified on exactly one of three samples; a selector that the first of four pages
  lists twice; two pages the first of which has an intent named \<^verbatim>\<open>toString\<close>;
  and a page whose only intent is named \<^verbatim>\<open>__proto__\<close>.
\<close>

definition priceProbe :: "string \<Rightarrow> bool \<Rightarrow> bool \<Rightarrow> ProbeResult" where
  "priceProbe sel m v =
     \<lparr>selector = sel, matched = m, verified = v, exampleValue = (if v then Some ''$1,299'' else None)\<rparr>"

definition scenarioC :: "PageProbeResults list" where
  "scenarioC =
     [[(''price'', [priceProbe ''.product-price'' True True, priceProbe ''.old-price'' True False]),
       (''rating'', [priceProbe ''.stars'' True False])],
      [(''price'', [priceProbe ''.product-price'' True False, priceProbe ''.old-price'' True False])],
      [(''price'', [priceProbe ''.product-price'' True True, priceProbe ''.old-price'' True False])]]"

definition sixSelectors :: "PageProbeResults list" where
  "sixSelectors =
     [[(''price'', [priceProbe ''[data-testid=a]'' True True, priceProbe ''[data-testid=b]'' True True,
                    priceProbe ''[data-testid=c]'' True True, priceProbe ''[data-testid=d]'' True True,
                    priceProbe ''[data-testid=e]'' True True, priceProbe ''[data-testid=f]'' True True])]]"

definition rankedSelectors :: "PageProbeResults list" where
  "rankedSelectors =
     [[(''price'', [priceProbe ''.amount'' True True, priceProbe ''.cost'' True True,
                    priceProbe ''[data-testid=a]'' True True, priceProbe ''[data-testid=b]'' True True,
                    priceProbe ''#price-now'' True True, priceProbe ''.sale-price'' True True,
                    priceProbe ''.total'' True True])],
      [(''price'', [priceProbe ''.amount'' True False, priceProbe ''.cost'' True True,
                    priceProbe ''[data-testid=a]'' True False, priceProbe ''[data-testid=b]'' True False,
                    priceProbe ''#price-now'' True False, priceProbe ''.sale-price'' True False,
                    priceProbe ''.total'' True True])]]"

definition oneOfThree :: "PageProbeResults list" where
  "oneOfThree =
     [[(''price'', [priceProbe ''[data-testid=price]'' True True])],
      [(''price'', [priceProbe ''[data-testid=price]'' True False])],
      [(''price'', [priceProbe ''[data-testid=price]'' False False])]]"

definition listedTwice :: "PageProbeResults list" where
  "listedTwice =
     [[(''price'', [priceProbe ''.product-price'' True True, priceProbe ''.product-price'' True True])],
      [(''price'', [priceProbe ''.product-price'' True False])],
      [(''price'', [priceProbe ''.product-price'' False False])],
      [(''price'', [priceProbe ''.product-price'' False False])]]"

definition inheritedName :: "PageProbeResults list" where
  "inheritedName =
     [[(''price'', [priceProbe ''.product-price'' True True]),
       (''toString'', [priceProbe ''.label'' True True])],
      [(''price'', [priceProbe ''.product-price'' True True])]]"

definition protoNamed :: "PageProbeResults list" where
  "protoNamed = [[(''__proto__'', [priceProbe ''.product-price'' True True])]]"

text \<open>
  A comparator orders any two elements one way or the other, and is transitive.
\<close>

definition total_on_all :: "('a \<Rightarrow> 'a \<Rightarrow> rat) \<Rightarrow> bool" where
  "total_on_all cmp = (\<forall>a b. cmp a b \<le> 0 \<or> cmp b a \<le> 0)"

definition trans_on_all :: "('a \<Rightarrow> 'a \<Rightarrow> rat) \<Rightarrow> bool" where
  "trans_on_all cmp = (\<forall>a b c. cmp a b \<le> 0 \<longrightarrow> cmp b c \<le> 0 \<longrightarrow> cmp a c \<le> 0)"

text \<open>
  The content count that a list of statistics holds for a selector (0 when it holds
  none).
\<close>

definition countOf :: "(string \<times> SelectorStats) list \<Rightarrow> string \<Rightarrow> nat" where
  "countOf acc k = (case map_of acc k of None \<Rightarrow> 0 | Some s \<Rightarrow> contentCount s)"

text \<open>
  \<open>hasRunOf n p s\<close>: some \<open>n\<close> consecutive characters of \<open>s\<close> all satisfy \<open>p\<close>.
  \<open>isLongSlug\<close>: at least 15 characters, each a lower-case letter, a digit or a hyphen,
  the first not a hyphen. \<open>hasMixedAlnumRun\<close> follows the words of the specification: a
  run of at least 4 alphanumeric characters that mixes letters and digits, that is, holds
  at least one of each.
\<close>

fun hasRunOf :: "nat \<Rightarrow> (char \<Rightarrow> bool) \<Rightarrow> string \<Rightarrow> bool" where
  "hasRunOf n p [] = (n = 0)"
| "hasRunOf n p (c # cs) = ((n \<le> length (c # cs) \<and> list_all p (take n (c # cs))) \<or> hasRunOf n p cs)"

definition isUpperOrDigit :: "char \<Rightarrow> bool" where
  "isUpperOrDigit c = (isUpperChar c \<or> isDigitChar c)"

definition isLetterChar :: "char \<Rightarrow> bool" where
  "isLetterChar c = (isUpperChar c \<or> isLowerChar c)"

fun tailsOf :: "'a list \<Rightarrow> 'a list list" where
  "tailsOf [] = [[]]"
| "tailsOf (x # xs) = (x # xs) # tailsOf xs"

fun initsOf :: "'a list \<Rightarrow> 'a list list" where
  "initsOf [] = [[]]"
| "initsOf (x # xs) = [] # map ((#) x) (initsOf xs)"

definition mixedAlnumRun :: "string \<Rightarrow> bool" where
  "mixedAlnumRun r =
     (4 \<le> length r \<and> list_all isAlnumChar r \<and> list_ex isLetterChar r \<and> list_ex isDigitChar r)"

definition hasMixedAlnumRun :: "string \<Rightarrow> bool" where
  "hasMixedAlnumRun seg = list_ex mixedAlnumRun (concat (map initsOf (tailsOf seg)))"

definition isLongSlug :: "string \<Rightarrow> bool" where
  "isLongSlug seg =
     (length seg \<ge> 15
      \<and> list_all (\<lambda>c. isLowerChar c \<or> isDigitChar c \<or> c = CHR ''-'') seg
      \<and> \<not> startsWith seg ''-'')"

text \<open>
  A page without structured data and without any marker element, and a page that
  declares a product while its DOM shows a grid of product cards.
\<close>

definition plainPage :: BrowserPage where
  "plainPage = \<lparr>jsonLdTypes = [], locatorCount = (\<lambda>sel. Some 0)\<rparr>"

definition productPage :: BrowserPage where
  "productPage = \<lparr>jsonLdTypes = [''Product''],
                   locatorCount = (\<lambda>sel. if sel = ''[class*=\"product-card\"]'' then Some 12 else Some 0)\<rparr>"

text \<open>Inputs for the pattern derivation: Scenario D, and a shop with one product.\<close>

definition scenarioD :: "string list" where
  "scenarioD = [''/mattress/a/SKU1'', ''/mattress/b/SKU2'', ''/mattress/c/SKU3'', ''/bed/d/SKU4'']"

definition scenarioD_products :: "ProductUrl list" where
  "scenarioD_products =
     map (\<lambda>p. \<lparr>name = ''Item'', url = ''https://shop.example'' @ p, category = ''All''\<rparr>) scenarioD"

definition mattressPattern :: string where
  "mattressPattern = SLASH @ ''mattress'' @ SLASH @ WILDCARD @ SLASH @ SKU_CLASS"

definition deskProduct :: ProductUrl where
  "deskProduct = \<lparr>name = ''Desk'', url = ''https://shop.example/v1.0/desk'', category = ''Desks''\<rparr>"

definition homeEntry :: "string \<Rightarrow> ValidatedPattern" where
  "homeEntry orig = \<lparr>pageType = Home, pattern = HOME_PATTERN, examples = [orig]\<rparr>"

definition cartEntry :: "string \<Rightarrow> ValidatedPattern" where
  "cartEntry orig = \<lparr>pageType = Cart, pattern = CART_PATTERN, examples = [orig @ ''/cart'']\<rparr>"

definition searchEntry :: "string \<Rightarrow> ValidatedPattern" where
  "searchEntry orig = \<lparr>pageType = Search, pattern = SEARCH_PATTERN, examples = [orig @ ''/search-result'']\<rparr>"

text \<open>
  The anchors of a document that \<open>extractProductUrls\<close> can read, the documents shown
  while a category is crawled, and the documents shown during a whole crawl. A stored
  URL is normalized from a set of anchors when it is \<^verbatim>\<open>u.origin + u.pathname\<close> for the
  resolved URL \<open>u\<close> of one of them on the crawled origin: its query and fragment are
  left out. \<open>crawlInv\<close> is the invariant of the crawl state.
\<close>

definition docAnchors :: "PageDom \<Rightarrow> Anchor set" where
  "docAnchors doc =
     set (allLinks doc)
     \<union> (\<Union>sel \<in> set cardSelectors. \<Union>c \<in> set (cardsFor doc sel). set (cardLinks c))"

definition visitDocs :: "CategoryVisit \<Rightarrow> PageDom set" where
  "visitDocs v = {doc. firstDoc v = Some doc \<or> (\<exists>k. laterSteps v k = Clicked doc)}"

definition shownDocs :: "(string \<Rightarrow> CategoryVisit) \<Rightarrow> CategoryUrl list \<Rightarrow> PageDom set" where
  "shownDocs browse cats = (\<Union>cat \<in> set cats. visitDocs (browse (catUrl cat)))"

definition normalizedFrom :: "string \<Rightarrow> Anchor set \<Rightarrow> string \<Rightarrow> bool" where
  "normalizedFrom orig A s =
     (\<exists>a \<in> A. \<exists>u. resolved a = Some u \<and> origin u = orig \<and> s = origin u @ pathname u)"

definition crawlInv :: "(string \<Rightarrow> bool) \<Rightarrow> CrawlState \<Rightarrow> bool" where
  "crawlInv Q st = (distinct (map url (snd st)) \<and> url ` set (snd st) \<subseteq> fst st \<and> (\<forall>p \<in> set (snd st). Q (url p)))"

text \<open>
  A small shop: a first category page that lists one product twice (with different
  query and fragment), a second page of the same category reached by a click that lists
  a known product again, and a second category that lists products of the first.
\<close>

definition shopAnchor :: "string \<Rightarrow> string \<Rightarrow> string \<Rightarrow> Anchor" where
  "shopAnchor path query frag =
     \<lparr>resolved = Some \<lparr>origin = ''https://shop.example'', pathname = path, search = query, hash = frag\<rparr>,
      hasImg = True, hasTitleEl = True, offsetWidth = 200, offsetHeight = 300, anchorText = ''View''\<rparr>"

definition shopCard :: "string \<Rightarrow> string \<Rightarrow> string \<Rightarrow> string \<Rightarrow> Card" where
  "shopCard path query frag title = \<lparr>cardLinks = [shopAnchor path query frag], nameText = title\<rparr>"

definition gridDoc :: "Card list \<Rightarrow> PageDom" where
  "gridDoc cards =
     \<lparr>cardsFor = (\<lambda>sel. if sel = ''[class*=\"product-card\"]'' then cards else []), allLinks = []\<rparr>"

definition bedsFirst :: PageDom where
  "bedsFirst = gridDoc [shopCard ''/beds/oak-bed'' ''?ref=grid'' [] ''Oak Bed'',
                        shopCard ''/beds/oak-bed'' [] ''#reviews'' ''Oak Bed'',
                        shopCard ''/beds/pine-bed'' [] [] ''Pine Bed'']"

definition bedsSecond :: PageDom where
  "bedsSecond = gridDoc [shopCard ''/beds/pine-bed'' ''?page=2'' [] ''Pine Bed'',
                         shopCard ''/beds/elm-bed'' ''?page=2'' [] ''Elm Bed'',
                         shopCard ''/beds/elm-bed'' [] [] ''Elm Bed'']"

definition saleFirst :: PageDom where
  "saleFirst = gridDoc [shopCard ''/beds/oak-bed'' [] [] ''Oak Bed'',
                        shopCard ''/beds/elm-bed'' [] [] ''Elm Bed'',
                        shopCard ''/sale/ash-desk'' ''?deal=1'' [] ''Ash Desk'']"

definition shopBrowse :: "string \<Rightarrow> CategoryVisit" where
  "shopBrowse u =
     (if u = ''https://shop.example/beds''
      then \<lparr>firstDoc = Some bedsFirst, hasMore = Some True,
            laterSteps = (\<lambda>k. if k = 0 then Clicked bedsSecond else NoButton)\<rparr>
      else if u = ''https://shop.example/sale''
      then \<lparr>firstDoc = Some saleFirst, hasMore = Some False, laterSteps = (\<lambda>k. NoButton)\<rparr>
      else \<lparr>firstDoc = None, hasMore = None, laterSteps = (\<lambda>k. NoButton)\<rparr>)"

definition shopNav :: "NavEdge list" where
  "shopNav =
     [\<lparr>navLabel = ''Beds'', href = ''https://shop.example/beds'', navSelector = None,
       targetPageType = Category\<rparr>,
      \<lparr>navLabel = ''Sale'', href = ''https://shop.example/sale'', navSelector = None,
       targetPageType = Category\<rparr>,
      \<lparr>navLabel = ''Home'', href = ''https://shop.example/'', navSelector = None,
       targetPageType = Home\<rparr>]"

definition shopPlatform :: Platform where
  "shopPlatform = \<lparr>parseUrl = parseHttpUrl, stripNameNoise = (\<lambda>s. s), cleanName = (\<lambda>s. s)\<rparr>"

section \<open>Properties of the consensus engine\<close>

lemma stabilityScore_bounds: "1 / 5 \<le> stabilityScore sel \<and> stabilityScore sel \<le> 1"
  by (simp add: stabilityScore_def)

lemma Math_round_nonneg: "0 \<le> x \<Longrightarrow> 0 \<le> Math_round x"
  by (simp add: Math_round_def)

lemma set_uniqueInOrder: "set (uniqueInOrder seen xs) = set xs - set seen"
  by (induction xs arbitrary: seen) auto

lemma distinct_uniqueInOrder: "distinct (uniqueInOrder seen xs)"
  by (induction xs arbitrary: seen) (auto simp: set_uniqueInOrder)

lemma uniqueInOrder_cong: "set seen = set seen' \<Longrightarrow> uniqueInOrder seen xs = uniqueInOrder seen' xs"
proof (induction xs arbitrary: seen seen')
  case Nil
  then show ?case by simp
next
  case (Cons x xs)
  from Cons.prems have "set (x # seen) = set (x # seen')" by simp
  then have "uniqueInOrder (x # seen) xs = uniqueInOrder (x # seen') xs"
    by (rule Cons.IH)
  moreover have "uniqueInOrder seen xs = uniqueInOrder seen' xs"
    using Cons.prems by (rule Cons.IH)
  ultimately show ?case using Cons.prems by simp
qed

subsection \<open>The stable sort\<close>

lemma elemsBefore_hd: "elemsBefore x (x # zs) = []"
  by simp

lemma elemsBefore_tl: "z \<noteq> x \<Longrightarrow> elemsBefore x (z # zs) = z # elemsBefore x zs"
  by simp

declare elemsBefore.simps(2) [simp del]

declare elemsBefore_hd [simp] elemsBefore_tl [simp]

lemma elemsBefore_subset: "set (elemsBefore x zs) \<subseteq> set zs"
proof (induction zs)
  case Nil
  then show ?case by simp
next
  case (Cons z zs)
  then show ?case by (cases "z = x") auto
qed

lemma elemsBefore_self: "x \<notin> set (elemsBefore x zs)"
proof (induction zs)
  case Nil
  then show ?case by simp
next
  case (Cons z zs)
  then show ?case by (cases "z = x") auto
qed

lemma length_insertBy: "length (insertBy cmp x ys) = Suc (length ys)"
  by (induction ys) auto

lemma length_sortBy: "length (sortBy cmp xs) = length xs"
  by (induction xs) (auto simp: sortBy_def length_insertBy)

lemma set_insertBy: "set (insertBy cmp x ys) = insert x (set ys)"
  by (induction ys) auto

lemma set_sortBy: "set (sortBy cmp xs) = set xs"
  by (induction xs) (auto simp: sortBy_def set_insertBy)

lemma distinct_insertBy: "distinct (insertBy cmp x ys) = (x \<notin> set ys \<and> distinct ys)"
  by (induction ys) (auto simp: set_insertBy)

lemma sortBy_Cons: "sortBy cmp (x # xs) = insertBy cmp x (sortBy cmp xs)"
  by (simp add: sortBy_def)

lemma sortBy_Nil: "sortBy cmp [] = []"
  by (simp add: sortBy_def)

lemma distinct_sortBy: "distinct (sortBy cmp xs) = distinct xs"
  by (induction xs) (simp_all add: sortBy_Nil sortBy_Cons distinct_insertBy set_sortBy)

lemma sorted_insertBy:
  assumes tot: "total_on_all cmp" and trans: "trans_on_all cmp"
    and srt: "sorted_wrt (\<lambda>a b. cmp a b \<le> 0) zs"
  shows "sorted_wrt (\<lambda>a b. cmp a b \<le> 0) (insertBy cmp x zs)"
  using srt
proof (induction zs)
  case Nil
  then show ?case by simp
next
  case (Cons z zs)
  have s: "sorted_wrt (\<lambda>a b. cmp a b \<le> 0) zs" and zle: "\<forall>y \<in> set zs. cmp z y \<le> 0"
    using Cons.prems by auto
  show ?case
  proof (cases "cmp x z \<le> 0")
    case True
    then have "\<forall>y \<in> set zs. cmp x y \<le> 0"
      using zle trans unfolding trans_on_all_def by blast
    with True Cons.prems show ?thesis by simp
  next
    case False
    then have "cmp z x \<le> 0" using tot unfolding total_on_all_def by blast
    with False zle Cons.IH [OF s] show ?thesis by (simp add: set_insertBy)
  qed
qed

lemma sorted_sortBy:
  assumes tot: "total_on_all cmp" and trans: "trans_on_all cmp"
  shows "sorted_wrt (\<lambda>a b. cmp a b \<le> 0) (sortBy cmp xs)"
proof (induction xs)
  case Nil
  then show ?case by (simp add: sortBy_def)
next
  case (Cons x xs)
  from sorted_insertBy [OF tot trans Cons] show ?case
    by (simp add: sortBy_Cons)
qed

lemma insertBy_before:
  assumes trans: "trans_on_all cmp"
    and srt: "sorted_wrt (\<lambda>a b. cmp a b \<le> 0) zs"
    and xin: "x \<in> set (a # zs)"
    and anew: "a \<notin> set zs"
  shows "set (elemsBefore x (insertBy cmp a zs)) =
       (if x = a then {y \<in> set zs. \<not> cmp a y \<le> 0}
        else set (elemsBefore x zs) \<union> (if cmp a x \<le> 0 then {a} else {}))"
  using srt xin anew
proof (induction zs)
  case Nil
  then show ?case by simp
next
  case (Cons z zs)
  have s: "sorted_wrt (\<lambda>a b. cmp a b \<le> 0) zs" and zle: "\<forall>y \<in> set zs. cmp z y \<le> 0"
    using Cons.prems(1) by auto
  have az: "a \<noteq> z" "z \<noteq> a" and a: "a \<notin> set zs"
    using Cons.prems(3) by auto
  show ?case
  proof (cases "cmp a z \<le> 0")
    case le: True
    then have all: "\<forall>y \<in> set (z # zs). cmp a y \<le> 0"
      using zle trans unfolding trans_on_all_def by auto
    show ?thesis
    proof (cases "x = a")
      case xa: True
      have "{y \<in> set (z # zs). \<not> cmp a y \<le> 0} = {}"
        using all by blast
      with xa le show ?thesis by simp
    next
      case xa: False
      then have ax: "a \<noteq> x" by simp
      from xa Cons.prems(2) have "x \<in> set (z # zs)" by simp
      with all have "cmp a x \<le> 0" by blast
      with xa ax le show ?thesis by simp
    qed
  next
    case nle: False
    show ?thesis
    proof (cases "x = a")
      case xa: True
      then have "x \<in> set (a # zs)" by simp
      from Cons.IH [OF s this a] xa
      have ih: "set (elemsBefore a (insertBy cmp a zs)) = {y \<in> set zs. \<not> cmp a y \<le> 0}"
        by simp
      have "set (elemsBefore a (insertBy cmp a (z # zs)))
          = insert z (set (elemsBefore a (insertBy cmp a zs)))"
        using nle az by simp
      also have "\<dots> = {y \<in> set (z # zs). \<not> cmp a y \<le> 0}"
        unfolding ih using nle by auto
      finally show ?thesis using xa by simp
    next
      case xa: False
      show ?thesis
      proof (cases "x = z")
        case True
        with nle xa show ?thesis by simp
      next
        case xz: False
        then have zx: "z \<noteq> x" by simp
        from xz xa Cons.prems(2) have "x \<in> set (a # zs)" by simp
        from Cons.IH [OF s this a] xa
        have ih: "set (elemsBefore x (insertBy cmp a zs))
            = set (elemsBefore x zs) \<union> (if cmp a x \<le> 0 then {a} else {})"
          by simp
        have "set (elemsBefore x (insertBy cmp a (z # zs)))
            = insert z (set (elemsBefore x (insertBy cmp a zs)))"
          using nle zx by simp
        also have "\<dots> = set (elemsBefore x (z # zs)) \<union> (if cmp a x \<le> 0 then {a} else {})"
          unfolding ih using zx by simp
        finally show ?thesis using xa by simp
      qed
    qed
  qed
qed

lemma sortBy_before:
  assumes tot: "total_on_all cmp" and trans: "trans_on_all cmp"
    and d: "distinct xs" and xin: "x \<in> set xs"
  shows "set (elemsBefore x (sortBy cmp xs)) =
       {y \<in> set xs. y \<noteq> x \<and>
          (if y \<in> set (elemsBefore x xs) then cmp y x \<le> 0 else \<not> cmp x y \<le> 0)}"
  using d xin
proof (induction xs)
  case Nil
  then show ?case by simp
next
  case (Cons a xs)
  have srt: "sorted_wrt (\<lambda>a b. cmp a b \<le> 0) (sortBy cmp xs)"
    by (rule sorted_sortBy [OF tot trans])
  have a: "a \<notin> set (sortBy cmp xs)" and a': "a \<notin> set xs" and d: "distinct xs"
    using Cons.prems(1) by (auto simp: set_sortBy)
  have x: "x \<in> set (a # sortBy cmp xs)"
    using Cons.prems(2) by (simp add: set_sortBy)
  note ins = insertBy_before [OF trans srt x a]
  show ?case
  proof (cases "x = a")
    case True
    have "set (elemsBefore x (sortBy cmp (a # xs))) = {y \<in> set xs. \<not> cmp a y \<le> 0}"
      using ins True by (simp add: sortBy_Cons set_sortBy)
    also have "\<dots> = {y \<in> set (a # xs). y \<noteq> x \<and>
          (if y \<in> set (elemsBefore x (a # xs)) then cmp y x \<le> 0 else \<not> cmp x y \<le> 0)}"
      using True a' by auto
    finally show ?thesis .
  next
    case False
    then have ax: "a \<noteq> x" by simp
    from False Cons.prems(2) have xin: "x \<in> set xs" by simp
    have tw: "set (elemsBefore x (a # xs)) = insert a (set (elemsBefore x xs))"
      using ax by simp
    have sub: "set (elemsBefore x xs) \<subseteq> set xs"
      by (rule elemsBefore_subset)
    have "set (elemsBefore x (sortBy cmp (a # xs)))
        = {y \<in> set xs. y \<noteq> x \<and>
            (if y \<in> set (elemsBefore x xs) then cmp y x \<le> 0 else \<not> cmp x y \<le> 0)}
          \<union> (if cmp a x \<le> 0 then {a} else {})"
      using ins False Cons.IH [OF d xin] by (simp add: sortBy_Cons)
    also have "\<dots> = {y \<in> set (a # xs). y \<noteq> x \<and>
          (if y \<in> set (elemsBefore x (a # xs)) then cmp y x \<le> 0 else \<not> cmp x y \<le> 0)}"
      unfolding tw using False ax a' sub by auto
    finally show ?thesis .
  qed
qed

lemma in_take_iff:
  assumes "distinct zs" and "x \<in> set zs"
  shows "x \<in> set (take n zs) \<longleftrightarrow> card (set (elemsBefore x zs)) < n"
  using assms
proof (induction zs arbitrary: n)
  case Nil
  then show ?case by simp
next
  case (Cons z zs)
  show ?case
  proof (cases "z = x")
    case True
    then show ?thesis by (cases n) simp_all
  next
    case False
    with Cons.prems have xin: "x \<in> set zs" and d: "distinct zs" and z: "z \<notin> set zs"
      by auto
    have "z \<notin> set (elemsBefore x zs)"
      using z elemsBefore_subset [of x zs] by blast
    then have c: "card (set (elemsBefore x (z # zs))) = Suc (card (set (elemsBefore x zs)))"
      using False by simp
    show ?thesis
    proof (cases n)
      case 0
      then show ?thesis by simp
    next
      case (Suc m)
      with Cons.IH [OF d xin, of m] False c show ?thesis by simp
    qed
  qed
qed

lemma elemsBefore_filter:
  assumes "x \<in> set xs" and "P x"
  shows "elemsBefore x (filter P xs) = filter P (elemsBefore x xs)"
  using assms
proof (induction xs)
  case Nil
  then show ?case by simp
next
  case (Cons a xs)
  show ?case
  proof (cases "a = x")
    case True
    with Cons.prems show ?thesis by simp
  next
    case False
    with Cons.prems have "x \<in> set xs" by auto
    from Cons.IH [OF this Cons.prems(2)] False show ?thesis by simp
  qed
qed

lemma elemsBefore_keys:
  assumes "distinct (map fst cs)" and "(s, st) \<in> set cs"
  shows "map fst (elemsBefore (s, st) cs) = elemsBefore s (map fst cs)"
  using assms
proof (induction cs)
  case Nil
  then show ?case by simp
next
  case (Cons c cs)
  show ?case
  proof (cases "c = (s, st)")
    case True
    then show ?thesis by simp
  next
    case False
    with Cons.prems have m: "(s, st) \<in> set cs" and d: "distinct (map fst cs)"
      and n: "fst c \<notin> fst ` set cs"
      by auto
    from m have "s \<in> fst ` set cs" by force
    with n have "fst c \<noteq> s" by auto
    with False Cons.IH [OF d m] show ?thesis by simp
  qed
qed

lemma compareStats_le:
  "compareStats a b \<le> 0 \<longleftrightarrow>
     contentCount (snd b) < contentCount (snd a)
     \<or> (contentCount (snd b) = contentCount (snd a) \<and> stabilityScore (fst b) \<le> stabilityScore (fst a))"
  by (auto simp: compareStats_def Let_def)

lemma compareStats_total: "total_on_all compareStats"
  unfolding total_on_all_def compareStats_le by auto

lemma compareStats_trans: "trans_on_all compareStats"
  unfolding trans_on_all_def compareStats_le by auto

subsection \<open>The loops\<close>

lemma probesOf_cases: "probesOf pg intent = Inl TypeError \<or> probesOf pg intent = Inr (ownProbes pg intent)"
  by (auto simp: probesOf_def ownProbes_def split: option.splits)

lemma probesOf_plain: "intent \<notin> set objectPrototypeKeys \<Longrightarrow> probesOf pg intent = Inr (ownProbes pg intent)"
  by (auto simp: probesOf_def ownProbes_def split: option.splits)

lemma tallyPages_eq:
  "tallyPages pages intent (stats, n) =
     (if \<exists>pg \<in> set pages. isl (probesOf pg intent) then Inl TypeError
      else Inr (foldl addProbe stats (allProbes pages intent),
                n + length (filter (\<lambda>pg. list_ex matched (ownProbes pg intent)) pages)))"
proof (induction pages arbitrary: stats n)
  case Nil
  then show ?case by (simp add: allProbes_def)
next
  case (Cons pg pages)
  from probesOf_cases [of pg intent] show ?case
  proof
    assume "probesOf pg intent = Inl TypeError"
    then show ?thesis by simp
  next
    assume "probesOf pg intent = Inr (ownProbes pg intent)"
    then show ?thesis by (simp add: Cons.IH allProbes_def)
  qed
qed

lemma collectStats_flat:
  "\<forall>pg \<in> set all. \<not> isl (probesOf pg intent) \<Longrightarrow>
     collectStats all intent = foldl addProbe [] (allProbes all intent)"
  by (simp add: collectStats_def tallyPages_eq)

lemma scoreIntent_eq:
  "scoreIntent all intent =
     (if \<exists>pg \<in> set all. isl (probesOf pg intent) then Inl TypeError
      else Inr (case qualifiedSels all intent of
                  [] \<Rightarrow> None
                | (bestSel, bestStats) # rest \<Rightarrow>
                    Some \<lparr>selectors = map fst ((bestSel, bestStats) # rest),
                          confidence = min 100 (Math_round
                            (of_nat (contentCount bestStats) / of_nat (length all) * 100
                               * stabilityScore bestSel)),
                          sampleCount = length (filter (\<lambda>pg. list_ex matched (ownProbes pg intent)) all),
                          entryExampleValue =
                            (case exampleValues bestStats of [] \<Rightarrow> None | v # _ \<Rightarrow> Some v)\<rparr>))"
  by (auto simp: scoreIntent_def qualifiedSels_def collectStats_def tallyPages_eq Let_def
      split: list.splits)

lemma scoreIntent_Some:
  assumes "scoreIntent all intent = Inr (Some e)"
  shows "qualifiedSels all intent \<noteq> []"
    and "selectors e = map fst (qualifiedSels all intent)"
    and "confidence e = min 100 (Math_round
           (of_nat (contentCount (snd (hd (qualifiedSels all intent)))) / of_nat (length all) * 100
              * stabilityScore (fst (hd (qualifiedSels all intent)))))"
    and "\<forall>pg \<in> set all. \<not> isl (probesOf pg intent)"
  using assms unfolding scoreIntent_eq by (auto split: list.splits if_splits)

lemma scoreIntent_plain:
  assumes "\<forall>pg \<in> set all. \<not> isl (probesOf pg intent)"
  shows "\<exists>r. scoreIntent all intent = Inr r
           \<and> (case r of None \<Rightarrow> qualifiedSels all intent = []
                | Some e \<Rightarrow> selectors e = map fst (qualifiedSels all intent) \<and> qualifiedSels all intent \<noteq> [])"
  using assms unfolding scoreIntent_eq by (auto split: list.splits)

lemma scoreIntents_Inr:
  "scoreIntents all is out0 = Inr out \<Longrightarrow>
     (\<forall>i \<in> set is. \<exists>r. scoreIntent all i = Inr r)
     \<and> (\<forall>k. out k = (if k \<in> set is \<and> k \<noteq> ''__proto__'' \<and> (\<exists>e. scoreIntent all k = Inr (Some e))
                      then projr (scoreIntent all k) else out0 k))"
proof (induction "is" arbitrary: out0)
  case Nil
  then show ?case by simp
next
  case (Cons i "is")
  show ?case
  proof (cases "scoreIntent all i")
    case (Inl err)
    with Cons.prems show ?thesis by simp
  next
    case (Inr r)
    show ?thesis
    proof (cases r)
      case None
      with Inr Cons.prems have "scoreIntents all is out0 = Inr out" by simp
      from Cons.IH [OF this] Inr None show ?thesis by auto
    next
      case (Some entry)
      with Inr Cons.prems have "scoreIntents all is (assignEntry out0 i entry) = Inr out" by simp
      from Cons.IH [OF this] Inr Some show ?thesis by (auto simp: assignEntry_def)
    qed
  qed
qed

lemma scoreIntents_returns:
  "\<forall>i \<in> set is. \<exists>r. scoreIntent all i = Inr r \<Longrightarrow> \<exists>out. scoreIntents all is out0 = Inr out"
proof (induction "is" arbitrary: out0)
  case Nil
  then show ?case by simp
next
  case (Cons i "is")
  then obtain r where "scoreIntent all i = Inr r" by auto
  with Cons show ?case by (cases r) auto
qed

lemma scoreConsensus_Some:
  assumes "scoreConsensus all modes = Inr out" and "out intent = Some e"
  shows "scoreIntent all intent = Inr (Some e)"
proof -
  from assms have "scoreIntents all (intentsOf all) Map.empty = Inr out"
    by (auto simp: scoreConsensus_def split: if_splits)
  from scoreIntents_Inr [OF this] assms(2) show ?thesis
    by (auto split: if_splits)
qed

lemma scoreConsensus_modes: "scoreConsensus all modes = scoreConsensus all modes'"
  by (simp add: scoreConsensus_def)

lemma scenarioC_returns: "returnsNormally scenarioC"
  by code_simp

lemma scenarioC_entry:
  "entryFor scenarioC ''price'' =
     Some \<lparr>selectors = [''.product-price''], confidence = 47, sampleCount = 3,
           entryExampleValue = Some ''$1,299''\<rparr>"
  by code_simp

lemma returned_entry:
  "scoreConsensus all modes = Inr out \<Longrightarrow> out intent = entryFor all intent"
  using scoreConsensus_modes [of all modes Map.empty] by (simp add: entryFor_def)

subsection \<open>The statistics\<close>

lemma keys_addProbe:
  "map fst (addProbe acc p) =
     (if selector p \<in> set (map fst acc) then map fst acc else map fst acc @ [selector p])"
proof -
  have m: "\<And>xs. map fst (map (\<lambda>(k, stats). if k = selector p then (k, bumpStats p stats) else (k, stats)) xs) = map fst xs"
    by (induct_tac xs) auto
  have n: "(map_of acc (selector p) = None) = (selector p \<notin> set (map fst acc))"
    by (simp add: map_of_eq_None_iff)
  show ?thesis
    unfolding addProbe_def Let_def m n by simp
qed

lemma keys_foldl:
  "map fst (foldl addProbe acc ps) = map fst acc @ uniqueInOrder (map fst acc) (map selector ps)"
proof (induction ps arbitrary: acc)
  case Nil
  then show ?case by simp
next
  case (Cons p ps)
  show ?case
  proof (cases "selector p \<in> set (map fst acc)")
    case True
    then show ?thesis by (simp add: Cons.IH keys_addProbe)
  next
    case False
    have "uniqueInOrder (map fst acc @ [selector p]) (map selector ps)
        = uniqueInOrder (selector p # map fst acc) (map selector ps)"
      by (rule uniqueInOrder_cong) auto
    with False show ?thesis by (simp add: Cons.IH keys_addProbe)
  qed
qed

lemma map_of_bump:
  "map_of (map (\<lambda>(k, stats). if k = sel then (k, f stats) else (k, stats)) xs) k =
     (if k = sel then map_option f (map_of xs k) else map_of xs k)"
  by (induction xs) auto

lemma contentCount_bump:
  "contentCount (bumpStats p s) = contentCount s + (if verified p then 1 else 0)"
  by (auto simp: bumpStats_def Let_def split: option.splits)

lemma countOf_addProbe:
  "countOf (addProbe acc p) k = countOf acc k + (if selector p = k \<and> verified p then 1 else 0)"
  by (auto simp: countOf_def addProbe_def Let_def map_of_bump contentCount_bump emptyStats_def
      split: option.splits)

lemma countOf_foldl:
  "countOf (foldl addProbe acc ps) k = countOf acc k + length (filter (\<lambda>p. selector p = k \<and> verified p) ps)"
  by (induction ps arbitrary: acc) (auto simp: countOf_addProbe)

lemma count_in_page:
  "distinct (map selector ps) \<Longrightarrow>
   length (filter (\<lambda>p. selector p = k \<and> verified p) ps) = (if list_ex (\<lambda>p. selector p = k \<and> verified p) ps then 1 else 0)"
proof (induction ps)
  case Nil
  then show ?case by simp
next
  case (Cons p ps)
  have "selector p = k \<Longrightarrow> filter (\<lambda>q. selector q = k \<and> verified q) ps = []"
    using Cons.prems by (auto simp: filter_empty_conv image_iff)
  moreover have "selector p = k \<Longrightarrow> \<not> list_ex (\<lambda>q. selector q = k \<and> verified q) ps"
    using Cons.prems by (auto simp: list_ex_iff image_iff)
  ultimately show ?case using Cons by auto
qed

lemma count_over_pages:
  assumes "listedOnce all intent"
  shows "length (filter (\<lambda>p. selector p = k \<and> verified p) (allProbes all intent)) = verifiedOn all intent k"
  using assms
proof (induction all)
  case Nil
  then show ?case by (simp add: allProbes_def verifiedOn_def)
next
  case (Cons pg all)
  then have "length (filter (\<lambda>p. selector p = k \<and> verified p) (allProbes all intent)) = verifiedOn all intent k"
    by (simp add: listedOnce_def)
  moreover have "length (filter (\<lambda>p. selector p = k \<and> verified p) (ownProbes pg intent))
      = (if list_ex (\<lambda>p. selector p = k \<and> verified p) (ownProbes pg intent) then 1 else 0)"
    using Cons.prems by (intro count_in_page) (simp add: listedOnce_def)
  ultimately show ?case by (simp add: allProbes_def verifiedOn_def)
qed

text \<open>
  Where no lookup throws, the statistics list the candidates in the order of their
  first probe, and where moreover no page lists a selector twice, the content count of
  a selector is the number of samples on which it passed verification.
\<close>

lemma stats_keys:
  assumes "\<forall>pg \<in> set all. \<not> isl (probesOf pg intent)"
  shows "map fst (collectStats all intent) = candidates all intent"
  unfolding collectStats_flat [OF assms] keys_foldl by (simp add: candidates_def)

lemma stats_distinct: "distinct (map fst (collectStats all intent))"
proof (cases "\<forall>pg \<in> set all. \<not> isl (probesOf pg intent)")
  case True
  then show ?thesis
    by (simp add: stats_keys candidates_def distinct_uniqueInOrder)
next
  case False
  then show ?thesis by (auto simp: collectStats_def tallyPages_eq)
qed

lemma stats_contentCount:
  assumes "\<forall>pg \<in> set all. \<not> isl (probesOf pg intent)"
    and "listedOnce all intent"
    and "(k, st) \<in> set (collectStats all intent)"
  shows "contentCount st = verifiedOn all intent k"
proof -
  have "map_of (collectStats all intent) k = Some st"
    using stats_distinct assms(3) by (rule map_of_is_SomeI)
  then have "countOf (collectStats all intent) k = contentCount st"
    by (simp add: countOf_def)
  moreover have "countOf (collectStats all intent) k = verifiedOn all intent k"
    unfolding collectStats_flat [OF assms(1)] countOf_foldl using count_over_pages [OF assms(2)]
    by (simp add: countOf_def)
  ultimately show ?thesis by simp
qed

lemma passes_iff:
  assumes "\<forall>pg \<in> set all. \<not> isl (probesOf pg intent)"
    and "listedOnce all intent"
    and "(k, st) \<in> set (collectStats all intent)"
  shows "passesThreshold (length all) (k, st) = (CONTENT_THRESHOLD \<le> verifiedRatio all intent k)"
  using stats_contentCount [OF assms] by (simp add: passesThreshold_def verifiedRatio_def)

lemma qualified_subset:
  "set (qualifiedSels all intent) \<subseteq> set (filter (passesThreshold (length all)) (collectStats all intent))"
  using set_take_subset [of MAX_FALLBACKS "sortBy compareStats (filter (passesThreshold (length all)) (collectStats all intent))"]
  by (simp add: qualifiedSels_def set_sortBy)

lemma intent_present:
  assumes "sel \<in> set (candidates all intent)"
  shows "intent \<in> set (intentsOf all)"
proof -
  from assms obtain pg p where pg: "pg \<in> set all" and p: "p \<in> set (ownProbes pg intent)"
    by (auto simp: candidates_def allProbes_def set_uniqueInOrder)
  then have "map_of pg intent \<noteq> None"
    by (cases "map_of pg intent") (auto simp: ownProbes_def)
  then have "intent \<in> fst ` set pg"
    by (simp add: map_of_eq_None_iff)
  with pg show ?thesis by (auto simp: intentsOf_def set_uniqueInOrder)
qed

lemma verified_is_candidate:
  assumes "0 < verifiedOn all intent sel"
  shows "sel \<in> set (candidates all intent)"
proof -
  from assms have "filter (\<lambda>pageResult. list_ex (\<lambda>p. selector p = sel \<and> verified p) (ownProbes pageResult intent)) all \<noteq> []"
    by (auto simp: verifiedOn_def)
  then obtain pg where "pg \<in> set all" "list_ex (\<lambda>p. selector p = sel \<and> verified p) (ownProbes pg intent)"
    by (auto simp: filter_empty_conv)
  then show ?thesis by (auto simp: candidates_def allProbes_def set_uniqueInOrder list_ex_iff)
qed

text \<open>
  With plain intent names no lookup throws and the call returns. Where the call returns,
  a selector in the chain of an entry is a key of the qualified statistics, and the
  qualified statistics of an intent other than \<^verbatim>\<open>__proto__\<close> make its entry.
\<close>

lemma plain_no_throw:
  assumes "plainIntents all" and "intent \<in> set (intentsOf all)"
  shows "\<forall>pg \<in> set all. \<not> isl (probesOf pg intent)"
  using assms by (auto simp: plainIntents_def list_all_iff probesOf_plain)

lemma plain_returns:
  assumes "plainIntents all"
  shows "returnsNormally all"
proof (cases "all = []")
  case True
  then show ?thesis by (simp add: returnsNormally_def scoreConsensus_def)
next
  case False
  have "\<forall>i \<in> set (intentsOf all). \<exists>r. scoreIntent all i = Inr r"
    using scoreIntent_plain [OF plain_no_throw [OF assms]] by blast
  then obtain out where "scoreIntents all (intentsOf all) Map.empty = Inr out"
    using scoreIntents_returns by blast
  with False show ?thesis by (simp add: returnsNormally_def scoreConsensus_def)
qed

lemma retained_qualified:
  assumes "\<not> discarded all intent sel"
  shows "sel \<in> set (map fst (qualifiedSels all intent))"
    and "\<forall>pg \<in> set all. \<not> isl (probesOf pg intent)"
proof -
  from assms obtain e where e: "entryFor all intent = Some e" and s: "sel \<in> set (selectors e)"
    by (auto simp: discarded_def split: option.splits)
  from e obtain out where out: "scoreConsensus all Map.empty = Inr out" and o: "out intent = Some e"
    by (auto simp: entryFor_def split: sum.splits)
  from scoreConsensus_Some [OF out o] have si: "scoreIntent all intent = Inr (Some e)" .
  from scoreIntent_Some(2) [OF si] s show "sel \<in> set (map fst (qualifiedSels all intent))"
    by simp
  from scoreIntent_Some(4) [OF si] show "\<forall>pg \<in> set all. \<not> isl (probesOf pg intent)" .
qed

lemma returned_no_throw:
  assumes "returnsNormally all" and "intent \<in> set (intentsOf all)"
  shows "\<forall>pg \<in> set all. \<not> isl (probesOf pg intent)"
proof (cases "all = []")
  case True
  then show ?thesis by simp
next
  case False
  from assms(1) obtain out where "scoreConsensus all Map.empty = Inr out"
    by (auto simp: returnsNormally_def split: sum.splits)
  with False have "scoreIntents all (intentsOf all) Map.empty = Inr out"
    by (simp add: scoreConsensus_def)
  from scoreIntents_Inr [OF this] assms(2) obtain r where "scoreIntent all intent = Inr r"
    by blast
  then show ?thesis
    unfolding scoreIntent_eq by (auto split: if_splits)
qed

lemma qualified_retained:
  assumes "returnsNormally all" and "all \<noteq> []" and "intent \<in> set (intentsOf all)"
    and "intent \<noteq> ''__proto__''"
    and "sel \<in> set (map fst (qualifiedSels all intent))"
  shows "\<not> discarded all intent sel"
proof -
  from assms(1) obtain out where sc: "scoreConsensus all Map.empty = Inr out"
    by (auto simp: returnsNormally_def split: sum.splits)
  with assms(2) have out: "scoreIntents all (intentsOf all) Map.empty = Inr out"
    by (simp add: scoreConsensus_def)
  from scoreIntent_plain [OF returned_no_throw [OF assms(1) assms(3)]]
  obtain r where r: "scoreIntent all intent = Inr r"
    and q: "case r of None \<Rightarrow> qualifiedSels all intent = []
                | Some e \<Rightarrow> selectors e = map fst (qualifiedSels all intent) \<and> qualifiedSels all intent \<noteq> []"
    by blast
  from assms(5) have "qualifiedSels all intent \<noteq> []" by auto
  with q obtain e where e: "r = Some e" and sel: "selectors e = map fst (qualifiedSels all intent)"
    by (cases r) auto
  have "entryFor all intent = out intent"
    using sc by (simp add: entryFor_def)
  also have "\<dots> = Some e"
    using scoreIntents_Inr [OF out] r e assms(3,4) by auto
  finally show ?thesis
    using sel assms(5) by (simp add: discarded_def)
qed

text \<open>
  The rank of a selector that reaches the threshold: it is in the chain exactly when
  fewer than \<open>MAX_FALLBACKS\<close> candidates outrank it.
\<close>

lemma rank_in_chain:
  assumes nt: "\<forall>pg \<in> set all. \<not> isl (probesOf pg intent)"
    and once: "listedOnce all intent"
    and ne: "all \<noteq> []"
    and reach: "CONTENT_THRESHOLD \<le> verifiedRatio all intent sel"
  shows "sel \<in> set (map fst (qualifiedSels all intent)) \<longleftrightarrow> outrankedBy all intent sel < MAX_FALLBACKS"
proof -
  let ?cs = "collectStats all intent"
  let ?P = "passesThreshold (length all)"
  let ?xs = "filter ?P ?cs"
  let ?srt = "sortBy compareStats ?xs"
  have dk: "distinct (map fst ?cs)" by (rule stats_distinct)
  then have dcs: "distinct ?cs" by (rule distinct_map [THEN iffD1, THEN conjunct1])
  have inj: "inj_on fst (set ?cs)"
    using dk by (simp add: distinct_map)
  have keys: "map fst ?cs = candidates all intent" by (rule stats_keys [OF nt])
  from reach have "0 < verifiedRatio all intent sel"
    by (simp add: CONTENT_THRESHOLD_def)
  then have "0 < verifiedOn all intent sel"
    by (simp add: verifiedRatio_def zero_less_divide_iff)
  then have "sel \<in> set (candidates all intent)"
    by (rule verified_is_candidate)
  then have "sel \<in> set (map fst ?cs)" by (simp only: keys)
  then obtain st where m: "(sel, st) \<in> set ?cs" by auto
  let ?x = "(sel, st)"
  have px: "?P ?x" using reach passes_iff [OF nt once m] by simp
  have xin: "?x \<in> set ?xs" using m px by simp
  have cc: "\<And>k s. (k, s) \<in> set ?cs \<Longrightarrow> contentCount s = verifiedOn all intent k"
    by (rule stats_contentCount [OF nt once])
  have pos: "\<And>y. y \<in> set ?cs \<Longrightarrow>
      (y \<in> set (elemsBefore ?x ?cs)) = probedBefore all intent (fst y) sel"
  proof -
    fix y assume y: "y \<in> set ?cs"
    have "probedBefore all intent (fst y) sel
        = (fst y \<in> fst ` set (elemsBefore ?x ?cs))"
      unfolding probedBefore_def keys [symmetric] elemsBefore_keys [OF dk m, symmetric] by simp
    also have "\<dots> = (y \<in> set (elemsBefore ?x ?cs))"
    proof
      assume "fst y \<in> fst ` set (elemsBefore ?x ?cs)"
      then obtain z where z: "z \<in> set (elemsBefore ?x ?cs)" and f: "fst y = fst z"
        by auto
      from z have "z \<in> set ?cs" using elemsBefore_subset by fastforce
      with inj y f have "y = z" by (simp add: inj_on_def)
      with z show "y \<in> set (elemsBefore ?x ?cs)" by simp
    next
      assume "y \<in> set (elemsBefore ?x ?cs)"
      then show "fst y \<in> fst ` set (elemsBefore ?x ?cs)" by simp
    qed
    finally show "(y \<in> set (elemsBefore ?x ?cs)) = probedBefore all intent (fst y) sel"
      by simp
  qed
  have self: "\<not> outranks all intent sel sel"
    using elemsBefore_self [of sel "candidates all intent"] by (simp add: outranks_def probedBefore_def)
  have before: "set (elemsBefore ?x ?srt) = {y \<in> set ?cs. outranks all intent (fst y) sel}"
  proof -
    have "set (elemsBefore ?x ?srt) =
        {y \<in> set ?xs. y \<noteq> ?x \<and>
           (if y \<in> set (elemsBefore ?x ?xs) then compareStats y ?x \<le> 0 else \<not> compareStats ?x y \<le> 0)}"
      using dcs xin by (intro sortBy_before compareStats_total compareStats_trans) auto
    also have "\<dots> = {y \<in> set ?cs. outranks all intent (fst y) sel}"
    proof (rule set_eqI)
      fix y
      show "(y \<in> {y \<in> set ?xs. y \<noteq> ?x \<and>
           (if y \<in> set (elemsBefore ?x ?xs) then compareStats y ?x \<le> 0 else \<not> compareStats ?x y \<le> 0)})
          = (y \<in> {y \<in> set ?cs. outranks all intent (fst y) sel})"
      proof (cases "y \<in> set ?cs")
        case False
        then show ?thesis by simp
      next
        case True
        obtain k s where y: "y = (k, s)" by (cases y)
        have cy: "contentCount s = verifiedOn all intent k"
          using True y cc by simp
        have cx: "contentCount st = verifiedOn all intent sel"
          using m cc by simp
        have py: "?P y = (CONTENT_THRESHOLD \<le> verifiedRatio all intent k)"
          using True y passes_iff [OF nt once] by simp
        have tw: "(y \<in> set (elemsBefore ?x ?xs)) = (?P y \<and> probedBefore all intent k sel)"
          unfolding elemsBefore_filter [where P = "?P" and x = "?x" and xs = "?cs", OF m px] using pos [OF True] y by auto
        have same: "y = ?x \<longleftrightarrow> k = sel"
          using eq_key_imp_eq_value [OF dk, of sel s st] True m y by auto
        have mono: "verifiedOn all intent sel \<le> verifiedOn all intent k \<Longrightarrow> ?P y"
        proof -
          assume "verifiedOn all intent sel \<le> verifiedOn all intent k"
          then have "verifiedRatio all intent sel \<le> verifiedRatio all intent k"
            by (simp add: verifiedRatio_def divide_right_mono)
          with reach show "?P y" unfolding py by simp
        qed
        show ?thesis
        proof (cases "k = sel")
          case True
          with same self y \<open>y \<in> set ?cs\<close> show ?thesis by simp
        next
          case False
          with same have neq: "y \<noteq> ?x" by simp
          show ?thesis
          proof (cases "?P y")
            case False
            with mono have "verifiedOn all intent k < verifiedOn all intent sel" by force
            then have "\<not> outranks all intent k sel" by (simp add: outranks_def)
            with False True y show ?thesis by simp
          next
            case pass: True
            have r: "(if y \<in> set (elemsBefore ?x ?xs) then compareStats y ?x \<le> 0 else \<not> compareStats ?x y \<le> 0)
                = outranks all intent k sel"
              unfolding tw compareStats_le outranks_def using pass y cx cy by auto
            have f: "fst y = k" using y by simp
            have "y \<in> set ?xs" using pass True by simp
            with neq True show ?thesis
              unfolding mem_Collect_eq r f by simp
          qed
        qed
      qed
    qed
    finally show ?thesis .
  qed
  have "card {y \<in> set ?cs. outranks all intent (fst y) sel}
      = card (fst ` {y \<in> set ?cs. outranks all intent (fst y) sel})"
    by (rule card_image [symmetric]) (rule inj_on_subset [OF inj], auto)
  also have "fst ` {y \<in> set ?cs. outranks all intent (fst y) sel}
      = {s' \<in> set (candidates all intent). outranks all intent s' sel}"
    unfolding keys [symmetric] by force
  also have "card \<dots> = outrankedBy all intent sel"
    unfolding outrankedBy_def
    using distinct_length_filter [of "candidates all intent" "\<lambda>s'. outranks all intent s' sel"]
    by (simp add: candidates_def distinct_uniqueInOrder Int_def conj_commute)
  finally have card: "card (set (elemsBefore ?x ?srt)) = outrankedBy all intent sel"
    unfolding before .
  have "sel \<in> set (map fst (qualifiedSels all intent)) \<longleftrightarrow> ?x \<in> set (take MAX_FALLBACKS ?srt)"
  proof
    assume "sel \<in> set (map fst (qualifiedSels all intent))"
    then obtain st' where q: "(sel, st') \<in> set (qualifiedSels all intent)" by auto
    with qualified_subset [of all intent] have "(sel, st') \<in> set ?cs" by auto
    with m have "st' = st" using eq_key_imp_eq_value [OF dk] by blast
    with q show "?x \<in> set (take MAX_FALLBACKS ?srt)" by (simp add: qualifiedSels_def)
  next
    assume "?x \<in> set (take MAX_FALLBACKS ?srt)"
    then show "sel \<in> set (map fst (qualifiedSels all intent))"
      by (force simp: qualifiedSels_def)
  qed
  also have "\<dots> \<longleftrightarrow> card (set (elemsBefore ?x ?srt)) < MAX_FALLBACKS"
    using dcs xin by (intro in_take_iff) (auto simp: distinct_sortBy set_sortBy)
  finally show ?thesis unfolding card .
qed

subsection \<open>The returned entries\<close>

text \<open>
  C10. For the empty list of samples \<open>scoreConsensus\<close> returns the empty map, whatever the
  mode map. The test of the sample count comes first and there is no intent to score, so
  no quotient by the sample count is formed.
\<close>

theorem scoreConsensus_no_samples:
  "scoreConsensus [] verifyModes = Inr Map.empty \<and> intentsOf [] = []"
  by (simp add: scoreConsensus_def intentsOf_def)

text \<open>
  C2. Every entry of an object that \<open>scoreConsensus\<close> returns, for any list of page
  results and any mode map, has a confidence between 0 and 100.
\<close>

theorem confidence_in_range:
  assumes "scoreConsensus allPageResults verifyModes = Inr output"
    and "output intent = Some e"
  shows "0 \<le> confidence e \<and> confidence e \<le> 100"
proof -
  from assms have s: "scoreIntent allPageResults intent = Inr (Some e)"
    by (rule scoreConsensus_Some)
  let ?best = "hd (qualifiedSels allPageResults intent)"
  let ?x = "(of_nat (contentCount (snd ?best)) :: rat) / of_nat (length allPageResults) * 100
              * stabilityScore (fst ?best)"
  have "0 \<le> stabilityScore (fst ?best)"
    using stabilityScore_bounds [of "fst ?best"] by simp
  then have "0 \<le> ?x" by simp
  then have "0 \<le> Math_round ?x" by (rule Math_round_nonneg)
  moreover have "confidence e = min 100 (Math_round ?x)"
    using scoreIntent_Some(3) [OF s] .
  ultimately show ?thesis by simp
qed

theorem confidence_in_range_witness:
  "returnsNormally scenarioC
   \<and> entryFor scenarioC ''price'' =
         Some \<lparr>selectors = [''.product-price''], confidence = 47, sampleCount = 3,
               entryExampleValue = Some ''$1,299''\<rparr>
   \<and> (0::int) \<le> 47 \<and> (47::int) \<le> 100"
proof -
  from scenarioC_returns obtain returned where out: "scoreConsensus scenarioC Map.empty = Inr returned"
    by (auto simp: returnsNormally_def split: sum.splits)
  have e: "returned ''price'' =
         Some \<lparr>selectors = [''.product-price''], confidence = 47, sampleCount = 3,
               entryExampleValue = Some ''$1,299''\<rparr>"
    using returned_entry [OF out] scenarioC_entry by simp
  from confidence_in_range [OF out e] scenarioC_returns scenarioC_entry show ?thesis by simp
qed

text \<open>
  C3. Every entry of an object that \<open>scoreConsensus\<close> returns has between 1 and 5
  selectors in its chain, and an intent none of whose selectors passes the threshold
  filter has no entry in the returned object.
\<close>

theorem fallback_chain_bounds:
  assumes "scoreConsensus allPageResults verifyModes = Inr output"
  shows "(output intent = Some e \<longrightarrow> 1 \<le> length (selectors e) \<and> length (selectors e) \<le> 5)
       \<and> (filter (passesThreshold (length allPageResults)) (collectStats allPageResults intent) = []
            \<longrightarrow> output intent = None)"
proof (rule conjI; rule impI)
  assume "output intent = Some e"
  with assms have s: "scoreIntent allPageResults intent = Inr (Some e)"
    by (rule scoreConsensus_Some)
  have "length (qualifiedSels allPageResults intent) \<le> 5"
    by (simp add: qualifiedSels_def MAX_FALLBACKS_def)
  moreover have "1 \<le> length (qualifiedSels allPageResults intent)"
    using scoreIntent_Some(1) [OF s] by (cases "qualifiedSels allPageResults intent") auto
  ultimately show "1 \<le> length (selectors e) \<and> length (selectors e) \<le> 5"
    by (simp add: scoreIntent_Some(2) [OF s])
next
  assume "filter (passesThreshold (length allPageResults)) (collectStats allPageResults intent) = []"
  then have q: "qualifiedSels allPageResults intent = []"
    by (simp add: qualifiedSels_def sortBy_def)
  show "output intent = None"
  proof (cases "output intent")
    case None
    then show ?thesis .
  next
    case (Some e')
    with assms have "scoreIntent allPageResults intent = Inr (Some e')"
      by (rule scoreConsensus_Some)
    from scoreIntent_Some(1) [OF this] q show ?thesis by simp
  qed
qed

theorem fallback_chain_bounds_witness:
  "returnsNormally scenarioC
   \<and> entryFor scenarioC ''price'' =
         Some \<lparr>selectors = [''.product-price''], confidence = 47, sampleCount = 3,
               entryExampleValue = Some ''$1,299''\<rparr>
   \<and> length [''.product-price''] = 1
   \<and> filter (passesThreshold (length scenarioC)) (collectStats scenarioC ''rating'') = []
   \<and> entryFor scenarioC ''rating'' = None"
proof -
  from scenarioC_returns obtain returned where out: "scoreConsensus scenarioC Map.empty = Inr returned"
    by (auto simp: returnsNormally_def split: sum.splits)
  have e: "returned ''price'' =
         Some \<lparr>selectors = [''.product-price''], confidence = 47, sampleCount = 3,
               entryExampleValue = Some ''$1,299''\<rparr>"
    using returned_entry [OF out] scenarioC_entry by simp
  have none: "filter (passesThreshold (length scenarioC)) (collectStats scenarioC ''rating'') = []"
    by code_simp
  have "returned ''rating'' = None"
    using fallback_chain_bounds [OF out, of "''rating''"] none by blast
  then have "entryFor scenarioC ''rating'' = None"
    using returned_entry [OF out, of "''rating''"] by simp
  moreover have "1 \<le> length [''.product-price''] \<and> length [''.product-price''] \<le> 5"
    using fallback_chain_bounds [OF out, of "''price''"] e by simp
  ultimately show ?thesis using scenarioC_returns scenarioC_entry none by simp
qed

text \<open>
  C1, as the code has it. Let there be at least one sample and let no page list a
  selector twice under the intent. A selector whose verified samples are fewer than a
  third of all samples is discarded. Where the call returns and the intent is not named
  \<^verbatim>\<open>__proto__\<close>, a selector whose ratio reaches the constant \<open>CONTENT_THRESHOLD\<close>
  is discarded if and only if at least \<open>MAX_FALLBACKS\<close> selectors of the intent
  outrank it: the chain holds the five that rank first, by the number of samples on
  which they passed verification, then by stability score, then by the order in which
  they were first probed. The call returns whenever no intent carries the name of a
  member of \<^verbatim>\<open>Object.prototype\<close>. Nothing is said of a ratio from a third up to
  the constant.
\<close>

theorem threshold_filter:
  assumes "allPageResults \<noteq> []"
    and "listedOnce allPageResults intent"
  shows "(verifiedRatio allPageResults intent sel < 1 / 3 \<longrightarrow> discarded allPageResults intent sel)
       \<and> (CONTENT_THRESHOLD \<le> verifiedRatio allPageResults intent sel
            \<and> returnsNormally allPageResults \<and> intent \<noteq> ''__proto__'' \<longrightarrow>
            (discarded allPageResults intent sel
               \<longleftrightarrow> MAX_FALLBACKS \<le> outrankedBy allPageResults intent sel))
       \<and> (plainIntents allPageResults \<longrightarrow> returnsNormally allPageResults)"
proof (rule conjI; (rule conjI)?; rule impI)
  assume low: "verifiedRatio allPageResults intent sel < 1 / 3"
  show "discarded allPageResults intent sel"
  proof (rule ccontr)
    assume kept: "\<not> discarded allPageResults intent sel"
    note nt = retained_qualified(2) [OF kept]
    from retained_qualified(1) [OF kept]
    obtain st where "(sel, st) \<in> set (qualifiedSels allPageResults intent)"
      by auto
    with qualified_subset [of allPageResults intent]
    have m: "(sel, st) \<in> set (collectStats allPageResults intent)"
      and p: "passesThreshold (length allPageResults) (sel, st)"
      by auto
    from p passes_iff [OF nt assms(2) m]
    have "CONTENT_THRESHOLD \<le> verifiedRatio allPageResults intent sel" by simp
    with low show False by (simp add: CONTENT_THRESHOLD_def)
  qed
next
  assume h: "CONTENT_THRESHOLD \<le> verifiedRatio allPageResults intent sel
      \<and> returnsNormally allPageResults \<and> intent \<noteq> ''__proto__''"
  then have "0 < verifiedRatio allPageResults intent sel"
    by (simp add: CONTENT_THRESHOLD_def)
  then have "0 < verifiedOn allPageResults intent sel"
    by (simp add: verifiedRatio_def zero_less_divide_iff)
  then have "sel \<in> set (candidates allPageResults intent)"
    by (rule verified_is_candidate)
  then have i: "intent \<in> set (intentsOf allPageResults)"
    by (rule intent_present)
  from h have ret: "returnsNormally allPageResults" and np: "intent \<noteq> ''__proto__''"
    and reach: "CONTENT_THRESHOLD \<le> verifiedRatio allPageResults intent sel"
    by simp_all
  note nt = returned_no_throw [OF ret i]
  note rank = rank_in_chain [OF nt assms(2) assms(1) reach]
  show "discarded allPageResults intent sel
          \<longleftrightarrow> MAX_FALLBACKS \<le> outrankedBy allPageResults intent sel"
  proof
    assume d: "discarded allPageResults intent sel"
    show "MAX_FALLBACKS \<le> outrankedBy allPageResults intent sel"
    proof (rule ccontr)
      assume "\<not> MAX_FALLBACKS \<le> outrankedBy allPageResults intent sel"
      with rank have "sel \<in> set (map fst (qualifiedSels allPageResults intent))"
        by simp
      from qualified_retained [OF ret assms(1) i np this] d show False by simp
    qed
  next
    assume many: "MAX_FALLBACKS \<le> outrankedBy allPageResults intent sel"
    show "discarded allPageResults intent sel"
    proof (rule ccontr)
      assume "\<not> discarded allPageResults intent sel"
      from retained_qualified(1) [OF this] rank many show False by simp
    qed
  qed
next
  assume "plainIntents allPageResults"
  then show "returnsNormally allPageResults"
    by (rule plain_returns)
qed

theorem threshold_filter_witness:
  "verifiedRatio scenarioC ''price'' ''.product-price'' = 2 / 3
   \<and> \<not> discarded scenarioC ''price'' ''.product-price''
   \<and> verifiedRatio scenarioC ''price'' ''.old-price'' = 0
   \<and> discarded scenarioC ''price'' ''.old-price''
   \<and> plainIntents rankedSelectors
   \<and> returnsNormally rankedSelectors
   \<and> verifiedRatio rankedSelectors ''price'' ''[data-testid=b]'' = 1 / 2
   \<and> outrankedBy rankedSelectors ''price'' ''[data-testid=b]'' = 3
   \<and> \<not> discarded rankedSelectors ''price'' ''[data-testid=b]''
   \<and> verifiedRatio rankedSelectors ''price'' ''.sale-price'' = 1 / 2
   \<and> outrankedBy rankedSelectors ''price'' ''.sale-price'' = 5
   \<and> discarded rankedSelectors ''price'' ''.sale-price''"
proof -
  have ne: "scenarioC \<noteq> []" "rankedSelectors \<noteq> []"
    by (simp_all add: scenarioC_def rankedSelectors_def)
  have once: "listedOnce scenarioC ''price''" "listedOnce rankedSelectors ''price''"
    by code_simp+
  have plain: "plainIntents scenarioC" "plainIntents rankedSelectors"
    by code_simp+
  have np: "''price'' \<noteq> ''__proto__''"
    by simp
  have r1: "verifiedRatio scenarioC ''price'' ''.product-price'' = 2 / 3"
    by code_simp
  have o1: "outrankedBy scenarioC ''price'' ''.product-price'' = 0"
    by code_simp
  have r2: "verifiedRatio scenarioC ''price'' ''.old-price'' = 0"
    by code_simp
  have r3: "verifiedRatio rankedSelectors ''price'' ''[data-testid=b]'' = 1 / 2"
    by code_simp
  have o3: "outrankedBy rankedSelectors ''price'' ''[data-testid=b]'' = 3"
    by code_simp
  have r4: "verifiedRatio rankedSelectors ''price'' ''.sale-price'' = 1 / 2"
    by code_simp
  have o4: "outrankedBy rankedSelectors ''price'' ''.sale-price'' = 5"
    by code_simp
  have ret: "returnsNormally scenarioC" "returnsNormally rankedSelectors"
    using threshold_filter [OF ne(1) once(1)] threshold_filter [OF ne(2) once(2)] plain
    by blast+
  have "\<not> discarded scenarioC ''price'' ''.product-price''"
    using threshold_filter [OF ne(1) once(1), of "''.product-price''"] r1 o1 ret(1) np
    by (simp add: CONTENT_THRESHOLD_def MAX_FALLBACKS_def)
  moreover have "discarded scenarioC ''price'' ''.old-price''"
    using threshold_filter [OF ne(1) once(1), of "''.old-price''"] r2 by simp
  moreover have "\<not> discarded rankedSelectors ''price'' ''[data-testid=b]''"
    using threshold_filter [OF ne(2) once(2), of "''[data-testid=b]''"] r3 o3 ret(2) np
    by (simp add: CONTENT_THRESHOLD_def MAX_FALLBACKS_def)
  moreover have "discarded rankedSelectors ''price'' ''.sale-price''"
    using threshold_filter [OF ne(2) once(2), of "''.sale-price''"] r4 o4 ret(2) np
    by (simp add: CONTENT_THRESHOLD_def MAX_FALLBACKS_def)
  ultimately show ?thesis using r1 r2 r3 o3 r4 o4 plain(2) ret(2) by simp
qed

text \<open>
  The claim as the specification states it, that a selector is discarded if and only if
  its ratio is below a third, fails on each of five inputs. On one page with six
  verified selectors the sixth has ratio 1 and is discarded, the chain being cut to
  five. A selector verified on exactly 1 of 3 samples has ratio 1/3 and is discarded,
  the constant being 0.34. A selector that passed on 1 of 4 samples and is listed twice
  on that sample is kept, the code counting probes. Where one page has an intent named
  \<^verbatim>\<open>toString\<close> that another lacks, the call throws and returns no selector at all.
  And the entry of an intent named \<^verbatim>\<open>__proto__\<close> is not among the properties of
  the returned object.
\<close>

theorem threshold_filter_counterexample:
  "sixSelectors \<noteq> []
   \<and> ''[data-testid=f]'' \<in> set (candidates sixSelectors ''price'')
   \<and> verifiedRatio sixSelectors ''price'' ''[data-testid=f]'' = 1
   \<and> \<not> (discarded sixSelectors ''price'' ''[data-testid=f]''
          \<longleftrightarrow> verifiedRatio sixSelectors ''price'' ''[data-testid=f]'' < 1 / 3)
   \<and> oneOfThree \<noteq> []
   \<and> ''[data-testid=price]'' \<in> set (candidates oneOfThree ''price'')
   \<and> verifiedRatio oneOfThree ''price'' ''[data-testid=price]'' = 1 / 3
   \<and> \<not> (discarded oneOfThree ''price'' ''[data-testid=price]''
          \<longleftrightarrow> verifiedRatio oneOfThree ''price'' ''[data-testid=price]'' < 1 / 3)
   \<and> listedTwice \<noteq> []
   \<and> \<not> listedOnce listedTwice ''price''
   \<and> ''.product-price'' \<in> set (candidates listedTwice ''price'')
   \<and> verifiedRatio listedTwice ''price'' ''.product-price'' = 1 / 4
   \<and> \<not> (discarded listedTwice ''price'' ''.product-price''
          \<longleftrightarrow> verifiedRatio listedTwice ''price'' ''.product-price'' < 1 / 3)
   \<and> inheritedName \<noteq> []
   \<and> \<not> returnsNormally inheritedName
   \<and> ''.product-price'' \<in> set (candidates inheritedName ''price'')
   \<and> verifiedRatio inheritedName ''price'' ''.product-price'' = 1
   \<and> \<not> (discarded inheritedName ''price'' ''.product-price''
          \<longleftrightarrow> verifiedRatio inheritedName ''price'' ''.product-price'' < 1 / 3)
   \<and> protoNamed \<noteq> []
   \<and> returnsNormally protoNamed
   \<and> ''.product-price'' \<in> set (candidates protoNamed ''__proto__'')
   \<and> verifiedRatio protoNamed ''__proto__'' ''.product-price'' = 1
   \<and> \<not> (discarded protoNamed ''__proto__'' ''.product-price''
          \<longleftrightarrow> verifiedRatio protoNamed ''__proto__'' ''.product-price'' < 1 / 3)"
proof -
  have six: "verifiedRatio sixSelectors ''price'' ''[data-testid=f]'' = 1"
    "discarded sixSelectors ''price'' ''[data-testid=f]''"
    "''[data-testid=f]'' \<in> set (candidates sixSelectors ''price'')"
    by code_simp+
  have one: "verifiedRatio oneOfThree ''price'' ''[data-testid=price]'' = 1 / 3"
    "discarded oneOfThree ''price'' ''[data-testid=price]''"
    "''[data-testid=price]'' \<in> set (candidates oneOfThree ''price'')"
    by code_simp+
  have twice: "verifiedRatio listedTwice ''price'' ''.product-price'' = 1 / 4"
    "\<not> discarded listedTwice ''price'' ''.product-price''"
    "''.product-price'' \<in> set (candidates listedTwice ''price'')"
    "\<not> listedOnce listedTwice ''price''"
    by code_simp+
  have inh: "verifiedRatio inheritedName ''price'' ''.product-price'' = 1"
    "discarded inheritedName ''price'' ''.product-price''"
    "''.product-price'' \<in> set (candidates inheritedName ''price'')"
    "\<not> returnsNormally inheritedName"
    by code_simp+
  have proto: "verifiedRatio protoNamed ''__proto__'' ''.product-price'' = 1"
    "discarded protoNamed ''__proto__'' ''.product-price''"
    "''.product-price'' \<in> set (candidates protoNamed ''__proto__'')"
    "returnsNormally protoNamed"
    by code_simp+
  show ?thesis
    using six one twice inh proto
    by (simp add: sixSelectors_def oneOfThree_def listedTwice_def inheritedName_def protoNamed_def)
qed

section \<open>Properties of the matcher\<close>

lemma star_iter_Nil: "star_iter f n [] = []"
  by (induction n) auto

lemma star_iter_nonempty: "sts \<noteq> [] \<Longrightarrow> star_iter f n sts \<noteq> []"
  by (cases n) auto

lemma res_Star_nonempty: "res (Star p) st \<noteq> []"
  by (simp add: star_iter_nonempty)

lemma res_Star_Cls_Nil: "res (Star (Cls neg rs)) (b, []) = [(b, [])]"
  by simp

lemma res_Star_Cls_Cons:
  "res (Star (Cls neg rs)) (b, c # cs) =
     (b, c # cs) # (if inCls neg rs c then res (Star (Cls neg rs)) (False, cs) else [])"
  by (simp add: star_iter_Nil)

declare res.simps(7) [simp del]

lemma res_Seq_nonempty:
  "(res (Seq p q) st \<noteq> []) = (\<exists>st' \<in> set (res p st). res q st' \<noteq> [])"
  by auto

lemma res_Cls: "res (Cls neg rs) (b, s) = (case s of [] \<Rightarrow> [] | c # cs \<Rightarrow> if inCls neg rs c then [(False, cs)] else [])"
  by simp

lemma concat_res_Epsilon: "concat (map (res Epsilon) xs) = xs"
  by (induction xs) auto

lemma res_atLeast_nonempty:
  "(res (rx_seqs (replicate n (Cls neg rs) @ [Star (Cls neg rs)])) (b, s) \<noteq> [])
     = (n \<le> length s \<and> list_all (inCls neg rs) (take n s))"
proof (induction n arbitrary: b s)
  case 0
  have "res (rx_seqs [Star (Cls neg rs)]) (b, s) = res (Star (Cls neg rs)) (b, s)"
    by (simp add: rx_seqs_def concat_res_Epsilon)
  then show ?case by (simp add: res_Star_nonempty)
next
  case (Suc n)
  have e: "rx_seqs (replicate (Suc n) (Cls neg rs) @ [Star (Cls neg rs)])
      = Seq (Cls neg rs) (rx_seqs (replicate n (Cls neg rs) @ [Star (Cls neg rs)]))"
    by (simp add: rx_seqs_def)
  show ?case
    unfolding e using Suc.IH by (cases s) auto
qed


lemma sku_run_at:
  "(res rx_sku_run (b, s) \<noteq> []) = (4 \<le> length s \<and> list_all isUpperOrDigit (take 4 s))"
proof -
  have c: "inCls False [upper_AZ, digit_09] = isUpperOrDigit"
    by (auto simp: inCls_def upper_AZ_def digit_09_def isUpperChar_def isDigitChar_def
        isUpperOrDigit_def fun_eq_iff)
  show ?thesis
    unfolding rx_sku_run_def atLeast_rx_def res_atLeast_nonempty c ..
qed

lemma sku_run_search:
  "rx_search rx_sku_run b s = hasRunOf 4 isUpperOrDigit s"
  by (induction s arbitrary: b) (simp_all only: rx_search.simps hasRunOf.simps sku_run_at, simp_all)

lemma sku_run_test:
  "rx_test rx_sku_run s = hasRunOf 4 isUpperOrDigit s"
  by (simp add: rx_test_def sku_run_search)

lemma star_reaches_end:
  "(\<exists>st' \<in> set (res (Star (Cls neg rs)) (b, s)). snd st' = []) = list_all (inCls neg rs) s"
proof (induction s arbitrary: b)
  case Nil
  show ?case by (simp add: res_Star_Cls_Nil)
next
  case (Cons c cs)
  show ?case
    unfolding res_Star_Cls_Cons using Cons.IH [of False] by fastforce
qed

lemma atLeast_reaches_end:
  "(\<exists>st' \<in> set (res (rx_seqs (replicate n (Cls neg rs) @ [Star (Cls neg rs)])) (b, s)). snd st' = [])
     = (n \<le> length s \<and> list_all (inCls neg rs) s)"
proof (induction n arbitrary: b s)
  case 0
  have "res (rx_seqs [Star (Cls neg rs)]) (b, s) = res (Star (Cls neg rs)) (b, s)"
    by (simp add: rx_seqs_def concat_res_Epsilon)
  then show ?case using star_reaches_end [of neg rs b s] by simp
next
  case (Suc n)
  have e: "rx_seqs (replicate (Suc n) (Cls neg rs) @ [Star (Cls neg rs)])
      = Seq (Cls neg rs) (rx_seqs (replicate n (Cls neg rs) @ [Star (Cls neg rs)]))"
    by (simp add: rx_seqs_def)
  show ?case
  proof (cases s)
    case Nil
    then show ?thesis unfolding e by simp
  next
    case (Cons c cs)
    show ?thesis
      unfolding e Cons using Suc.IH [of False cs] by auto
  qed
qed

lemma search_Bol_False: "rx_search (Seq Bol r) False s = False"
  by (induction s) auto

lemma search_Bol_True: "rx_search (Seq Bol r) True s = (res r (True, s) \<noteq> [])"
  by (cases s) (auto simp: search_Bol_False)

lemma one_char_range:
  "((of_char d :: int) \<le> of_char c \<and> (of_char c :: int) \<le> of_char d) = (c = d)"
  by (metis of_char_eq_iff order_antisym order_refl)

lemma slug_class:
  "inCls False [lower_az, digit_09, one_char d] = (\<lambda>c. isLowerChar c \<or> isDigitChar c \<or> c = d)"
  by (auto simp: inCls_def lower_az_def digit_09_def one_char_def isLowerChar_def isDigitChar_def
      one_char_range fun_eq_iff)

lemma long_slug_test: "rx_test rx_long_slug s = isLongSlug s"
proof -
  let ?A = "Cls False [lower_az, digit_09]"
  let ?B = "Cls False [lower_az, digit_09, one_char CHR ''-'']"
  have a: "inCls False [lower_az, digit_09] = (\<lambda>c. isLowerChar c \<or> isDigitChar c)"
    by (auto simp: inCls_def lower_az_def digit_09_def isLowerChar_def isDigitChar_def fun_eq_iff)
  have b: "inCls False [lower_az, digit_09, one_char CHR ''-''] = (\<lambda>c. isLowerChar c \<or> isDigitChar c \<or> c = CHR ''-'')"
    by (rule slug_class)
  have e: "rx_long_slug = Seq Bol (Seq ?A (Seq (rx_seqs (replicate 14 ?B @ [Star ?B])) (Seq Eol Epsilon)))"
    by (simp add: rx_long_slug_def rx_seqs_def atLeast_rx_def)
  have tail: "\<And>st. (res (Seq (rx_seqs (replicate 14 ?B @ [Star ?B])) (Seq Eol Epsilon)) st \<noteq> [])
      = (14 \<le> length (snd st) \<and> list_all (inCls False [lower_az, digit_09, one_char CHR ''-'']) (snd st))"
  proof -
    fix st :: "bool \<times> string"
    have "(res (Seq (rx_seqs (replicate 14 ?B @ [Star ?B])) (Seq Eol Epsilon)) st \<noteq> [])
        = (\<exists>st' \<in> set (res (rx_seqs (replicate 14 ?B @ [Star ?B])) (fst st, snd st)). snd st' = [])"
      unfolding res_Seq_nonempty by auto
    then show "(res (Seq (rx_seqs (replicate 14 ?B @ [Star ?B])) (Seq Eol Epsilon)) st \<noteq> [])
      = (14 \<le> length (snd st) \<and> list_all (inCls False [lower_az, digit_09, one_char CHR ''-'']) (snd st))"
      unfolding atLeast_reaches_end .
  qed
  have "rx_test rx_long_slug s
      = (res (Seq ?A (Seq (rx_seqs (replicate 14 ?B @ [Star ?B])) (Seq Eol Epsilon))) (True, s) \<noteq> [])"
    unfolding rx_test_def e search_Bol_True ..
  also have "\<dots> = (case s of [] \<Rightarrow> False | c # cs \<Rightarrow> inCls False [lower_az, digit_09] c
      \<and> 14 \<le> length cs \<and> list_all (inCls False [lower_az, digit_09, one_char CHR ''-'']) cs)"
    unfolding res_Seq_nonempty [of ?A] using tail by (cases s) auto
  also have "\<dots> = isLongSlug s"
    unfolding a b by (cases s) (auto simp: isLongSlug_def isLowerChar_def isDigitChar_def)
  finally show ?thesis .
qed


section \<open>Properties of the page classifier\<close>

lemma capitalize_names:
  "capitalize ''product'' = ''Product''"
  "capitalize ''category'' = ''Category''"
  by code_simp+

text \<open>
  C7. A page whose structured-data types include \<open>Product\<close> is classified as a product
  page with rule confidence 95 by the structured-data tier, for every URL string. The
  result does not depend on what the DOM shows, and depends on the URL only through the
  pattern template of the rule.
\<close>

theorem jsonld_product:
  assumes "''Product'' \<in> set (jsonLdTypes page)"
  shows "classifyPage U page urlStr =
           \<lparr>resultType = Product,
            resultRule = \<lparr>urlPattern = buildUrlPattern U urlStr, domSignature = None,
                          jsonLdType = Some (hd (jsonLdTypes page)), label = ''Product'',
                          ruleConfidence = 95\<rparr>,
            resultMethod = Jsonld\<rparr>
       \<and> classifyPage U (page\<lparr>locatorCount := f\<rparr>) urlStr = classifyPage U page urlStr"
proof -
  have l: "toLowerCase ''Product'' = ''product''"
    by code_simp
  from assms have "''product'' \<in> set (map toLowerCase (jsonLdTypes page))"
    using l by force
  then have "jsonLdTypeToPageType (jsonLdTypes page) = Some Product"
    by (auto simp: jsonLdTypeToPageType_def Let_def list_ex_iff)
  moreover from assms have "length (jsonLdTypes page) > 0"
    by (cases "jsonLdTypes page") auto
  ultimately show ?thesis
    by (simp add: classifyPage_def capitalize_names)
qed

theorem jsonld_product_witness:
  "classifyPage parseHttpUrl productPage ''https://shop.example/cart'' =
     \<lparr>resultType = Product,
      resultRule = \<lparr>urlPattern = buildUrlPattern parseHttpUrl ''https://shop.example/cart'',
                    domSignature = None, jsonLdType = Some ''Product'', label = ''Product'',
                    ruleConfidence = 95\<rparr>,
      resultMethod = Jsonld\<rparr>
   \<and> scoreUrlByType parseHttpUrl ''https://shop.example/cart'' = Cart
   \<and> detectDomType productPage = Some Category"
proof -
  have m: "''Product'' \<in> set (jsonLdTypes productPage)"
    by (simp add: productPage_def)
  have h: "hd (jsonLdTypes productPage) = ''Product''"
    by (simp add: productPage_def)
  have "scoreUrlByType parseHttpUrl ''https://shop.example/cart'' = Cart"
    by code_simp
  moreover have "detectDomType productPage = Some Category"
    by code_simp
  ultimately show ?thesis
    using jsonld_product [where page = productPage and U = parseHttpUrl
        and urlStr = "''https://shop.example/cart''", OF m] h
    by simp
qed

text \<open>
  C6, as the code has it. Let the URL parse, let its path have 1 or 2 segments and
  match none of the cart, search and utility patterns, let its query hold neither
  \<^verbatim>\<open>q=\<close> nor \<^verbatim>\<open>query=\<close>, and let its final segment neither hold 4 consecutive
  characters that are upper-case letters or digits nor be a slug of 15 or more lower-case
  letters, digits and hyphens. Then the URL tier returns \<open>category\<close>, and where the
  structured-data tier yields nothing \<open>classifyPage\<close> returns \<open>category\<close> with rule
  confidence 70 by the URL tier.
\<close>

theorem url_tier_category:
  assumes "U urlStr = Some parsed"
    and "length (pathSegments (pathname parsed)) = 1 \<or> length (pathSegments (pathname parsed)) = 2"
    and "\<not> rx_test rx_cart (toLowerCase (pathname parsed))"
    and "\<not> rx_test rx_search_kw (toLowerCase (pathname parsed))"
    and "\<not> str_includes (search parsed) ''q=''"
    and "\<not> str_includes (search parsed) ''query=''"
    and "\<not> rx_test_i rx_utility (toLowerCase (pathname parsed))"
    and "\<not> hasRunOf 4 isUpperOrDigit (last (pathSegments (pathname parsed)))"
    and "\<not> isLongSlug (last (pathSegments (pathname parsed)))"
  shows "scoreUrlByType U urlStr = Category
       \<and> (jsonLdTypeToPageType (jsonLdTypes page) = None \<longrightarrow>
            classifyPage U page urlStr =
              \<lparr>resultType = Category,
               resultRule = \<lparr>urlPattern = buildUrlPattern U urlStr, domSignature = None,
                             jsonLdType = None, label = ''Category'', ruleConfidence = 70\<rparr>,
               resultMethod = Url\<rparr>)"
proof -
  have s: "scoreUrlByType U urlStr = Category"
    using assms by (auto simp: scoreUrlByType_def Let_def sku_run_test long_slug_test)
  then show ?thesis
    by (simp add: classifyPage_def Let_def capitalize_names)
qed

theorem url_tier_category_witness:
  "scoreUrlByType parseHttpUrl ''https://shop.example/beds/king'' = Category
   \<and> classifyPage parseHttpUrl plainPage ''https://shop.example/beds/king'' =
       \<lparr>resultType = Category,
        resultRule = \<lparr>urlPattern = buildUrlPattern parseHttpUrl ''https://shop.example/beds/king'',
                      domSignature = None, jsonLdType = None, label = ''Category'',
                      ruleConfidence = 70\<rparr>,
        resultMethod = Url\<rparr>"
proof -
  let ?parsed = "\<lparr>origin = ''https://shop.example'', pathname = ''/beds/king'', search = [], hash = []\<rparr>"
  have p: "parseHttpUrl ''https://shop.example/beds/king'' = Some ?parsed"
    by code_simp
  have n: "length (pathSegments (pathname ?parsed)) = 1 \<or> length (pathSegments (pathname ?parsed)) = 2"
    by code_simp
  have c: "\<not> rx_test rx_cart (toLowerCase (pathname ?parsed))"
    by code_simp
  have s: "\<not> rx_test rx_search_kw (toLowerCase (pathname ?parsed))"
    by code_simp
  have q1: "\<not> str_includes (search ?parsed) ''q=''"
    by code_simp
  have q2: "\<not> str_includes (search ?parsed) ''query=''"
    by code_simp
  have u: "\<not> rx_test_i rx_utility (toLowerCase (pathname ?parsed))"
    by code_simp
  have k: "\<not> hasRunOf 4 isUpperOrDigit (last (pathSegments (pathname ?parsed)))"
    by code_simp
  have l: "\<not> isLongSlug (last (pathSegments (pathname ?parsed)))"
    by code_simp
  have j: "jsonLdTypeToPageType (jsonLdTypes plainPage) = None"
    by code_simp
  show ?thesis
    using url_tier_category [where U = parseHttpUrl and urlStr = "''https://shop.example/beds/king''"
        and parsed = ?parsed and page = plainPage, OF p n c s q1 q2 u k l] j
    by simp
qed

text \<open>
  The claim as the specification states it fails on a final segment of four digits: it
  holds no run that mixes letters and digits and is no long slug, and the URL tier
  returns \<open>product\<close>.
\<close>

theorem url_tier_category_counterexample:
  "parseHttpUrl ''https://shop.example/sale/2024'' =
     Some \<lparr>origin = ''https://shop.example'', pathname = ''/sale/2024'', search = [], hash = []\<rparr>
   \<and> pathSegments ''/sale/2024'' = [''sale'', ''2024'']
   \<and> \<not> rx_test rx_cart (toLowerCase ''/sale/2024'')
   \<and> \<not> rx_test rx_search_kw (toLowerCase ''/sale/2024'')
   \<and> \<not> rx_test_i rx_utility (toLowerCase ''/sale/2024'')
   \<and> \<not> hasMixedAlnumRun ''2024''
   \<and> \<not> isLongSlug ''2024''
   \<and> scoreUrlByType parseHttpUrl ''https://shop.example/sale/2024'' = Product
   \<and> resultType (classifyPage parseHttpUrl plainPage ''https://shop.example/sale/2024'') = Product
   \<and> ruleConfidence (resultRule (classifyPage parseHttpUrl plainPage ''https://shop.example/sale/2024'')) = 70"
  by code_simp

section \<open>Properties of the pattern derivation\<close>

text \<open>
  C5. On the four paths of Scenario D \<open>clusterPaths\<close> emits exactly one cluster: its
  members are the three paths under \<open>mattress\<close>, and its pattern is the literal
  \<open>mattress\<close>, the wildcard token for the middle segment and the SKU class for the last.
  The path under \<open>bed\<close> is alone in its group and is in no cluster; the pattern does not
  match it. \<open>deriveUrlPatterns\<close> passes the cluster on as a product pattern.
\<close>

theorem scenario_D_cluster:
  "clusterPaths scenarioD =
     [\<lparr>clusterPattern = mattressPattern,
       clusterExamples = [''/mattress/a/SKU1'', ''/mattress/b/SKU2'', ''/mattress/c/SKU3'']\<rparr>]
   \<and> mattressPattern = SLASH @ ''mattress'' @ SLASH @ ''[^/]+'' @ SLASH @ ''[A-Z0-9]{4,}''
   \<and> productPatterns parseHttpUrl scenarioD_products =
     [\<lparr>pageType = Product, pattern = mattressPattern,
       examples = [''/mattress/a/SKU1'', ''/mattress/b/SKU2'', ''/mattress/c/SKU3'']\<rparr>]
   \<and> map (patternTest mattressPattern) scenarioD = [Some True, Some True, Some True, Some False]"
  by code_simp

text \<open>
  C9 at a failing input. One product whose first path segment holds a dot: no group has
  two members, the singleton branch emits a pattern for the path, and the list of
  examples of that pattern is empty, since the first segment read back from the
  pattern stops at the backslash that escapes the dot.
\<close>

theorem singleton_pattern_without_examples:
  "deriveUrlPatterns parseHttpUrl [deskProduct] [] ''https://shop.example'' =
     [homeEntry ''https://shop.example'',
      \<lparr>pageType = Product, pattern = SLASH @ ''v1'' @ [BSL] @ ''.0'' @ SLASH @ WILDCARD, examples = []\<rparr>,
      cartEntry ''https://shop.example'',
      searchEntry ''https://shop.example'']
   \<and> firstSegmentOfPattern (SLASH @ ''v1'' @ [BSL] @ ''.0'' @ SLASH @ WILDCARD) = Some ''v1''
   \<and> firstSegment ''/v1.0/desk'' = Some ''v1.0''"
  by code_simp

text \<open>
  C4 at a failing input. With no category in the navigation the registry holds the three
  synthesized patterns; none of them matches its own example, which is a full URL where
  the pattern is anchored at the start of a path.
\<close>

theorem synthesized_examples_not_matched:
  "validatedPatterns (buildUrlRegistry P browse ''https://shop.example'' [] None) =
     [homeEntry ''https://shop.example'', cartEntry ''https://shop.example'',
      searchEntry ''https://shop.example'']
   \<and> patternTest (pattern (homeEntry ''https://shop.example'')) ''https://shop.example'' = Some False
   \<and> patternTest (pattern (cartEntry ''https://shop.example'')) ''https://shop.example/cart'' = Some False
   \<and> patternTest (pattern (searchEntry ''https://shop.example''))
         ''https://shop.example/search-result'' = Some False"
proof -
  have "validatedPatterns (buildUrlRegistry P browse ''https://shop.example'' [] None) =
     [homeEntry ''https://shop.example'', cartEntry ''https://shop.example'',
      searchEntry ''https://shop.example'']"
    by (simp add: buildUrlRegistry_def deriveUrlPatterns_def productPatterns_def
        categoryPatterns_def pathsOf_def homeEntry_def cartEntry_def searchEntry_def)
  moreover have "patternTest (pattern (homeEntry ''https://shop.example'')) ''https://shop.example'' = Some False"
    by code_simp
  moreover have "patternTest (pattern (cartEntry ''https://shop.example'')) ''https://shop.example/cart'' = Some False"
    by code_simp
  moreover have "patternTest (pattern (searchEntry ''https://shop.example''))
         ''https://shop.example/search-result'' = Some False"
    by code_simp
  ultimately show ?thesis by simp
qed

text \<open>
  The paths of the synthesized examples do match, and so do the members of a cluster;
  a singleton pattern can also list a shorter path of the same first segment, which it
  does not match.
\<close>

lemma synthesized_paths_matched:
  "patternTest HOME_PATTERN ''/'' = Some True
   \<and> patternTest CART_PATTERN ''/cart'' = Some True
   \<and> patternTest SEARCH_PATTERN ''/search-result'' = Some True"
  by code_simp

lemma singleton_lists_shorter_path:
  "clusterPaths [''/a'', ''/a/b''] =
     [\<lparr>clusterPattern = SLASH @ ''a'' @ SLASH @ WILDCARD, clusterExamples = [''/a'', ''/a/b'']\<rparr>]
   \<and> patternTest (SLASH @ ''a'' @ SLASH @ WILDCARD) ''/a'' = Some False"
  by code_simp

section \<open>Properties of the registry builder\<close>

lemma scoreLink_href: "scoreLink P l = Some l' \<Longrightarrow> linkHref l' = linkHref l"
  by (auto simp: scoreLink_def Let_def split: option.splits)

lemma allSome_member: "allSome xs = Some ys \<Longrightarrow> y \<in> set ys \<Longrightarrow> Some y \<in> set xs"
  by (induction xs arbitrary: ys rule: allSome.induct) auto

lemma originLinks_from:
  "l \<in> set (originLinks orig c) \<Longrightarrow> normalizedFrom orig (set (cardLinks c)) (linkHref l)"
proof -
  assume "l \<in> set (originLinks orig c)"
  then obtain a where a: "a \<in> set (cardLinks c)"
    and l: "l \<in> set (case resolved a of None \<Rightarrow> []
                | Some u \<Rightarrow> if origin u = orig
                    then [\<lparr>linkEl = a, linkHref = origin u @ pathname u, score = 0\<rparr>] else [])"
    by (auto simp: originLinks_def)
  from l obtain u where "resolved a = Some u" "origin u = orig" "linkHref l = origin u @ pathname u"
    by (cases "resolved a") (auto split: if_splits)
  with a show ?thesis unfolding normalizedFrom_def by blast
qed

lemma processCard_from:
  assumes "processCard P orig cn c st = Some st'"
    and "p \<in> set (fst st')"
  shows "p \<in> set (fst st) \<or> normalizedFrom orig (set (cardLinks c)) (url p)"
proof -
  from assms(1) obtain scored where sc: "allSome (map (scoreLink P) (originLinks orig c)) = Some scored"
    by (auto simp: processCard_def split: option.splits)
  have from_card: "normalizedFrom orig (set (cardLinks c)) (linkHref l)" if "l \<in> set scored" for l
  proof -
    from allSome_member [OF sc that] obtain l0 where "l0 \<in> set (originLinks orig c)" "scoreLink P l0 = Some l"
      by auto
    then show ?thesis using originLinks_from [of l0 orig c] scoreLink_href [of P l0 l] by simp
  qed
  show ?thesis
  proof (cases "sortBy (\<lambda>a b. score b - score a) scored")
    case Nil
    with assms sc show ?thesis by (simp add: processCard_def)
  next
    case (Cons best rest)
    then have "best \<in> set (sortBy (\<lambda>a b. score b - score a) scored)" by simp
    then have "best \<in> set scored" by (simp add: set_sortBy)
    then have b: "normalizedFrom orig (set (cardLinks c)) (linkHref best)" by (rule from_card)
    from assms sc Cons show ?thesis
      using b by (auto simp: processCard_def Let_def split: if_splits option.splits)
  qed
qed

lemma processCards_from:
  assumes "processCards P orig cn cs st = Some st'"
    and "p \<in> set (fst st')"
  shows "p \<in> set (fst st) \<or> (\<exists>c \<in> set cs. normalizedFrom orig (set (cardLinks c)) (url p))"
  using assms
proof (induction cs arbitrary: st)
  case Nil
  then show ?case by simp
next
  case (Cons c cs)
  from Cons.prems(1) obtain st1 where s1: "processCard P orig cn c st = Some st1"
    and s2: "processCards P orig cn cs st1 = Some st'"
    by (auto split: option.splits)
  from Cons.IH [OF s2 Cons.prems(2)] processCard_from [OF s1, of p]
  show ?case by auto
qed

lemma findCards_subset:
  "c \<in> set (findCards doc sels) \<Longrightarrow> \<exists>sel \<in> set sels. c \<in> set (cardsFor doc sel)"
  by (induction sels) (auto split: if_splits)

lemma normalizedFrom_mono: "normalizedFrom orig A s \<Longrightarrow> A \<subseteq> B \<Longrightarrow> normalizedFrom orig B s"
  by (auto simp: normalizedFrom_def)

lemma scanLink_from:
  assumes "p \<in> set (fst (scanLink orig cn st a))"
  shows "p \<in> set (fst st) \<or> normalizedFrom orig {a} (url p)"
  using assms by (auto simp: scanLink_def Let_def normalizedFrom_def split: option.splits if_splits)

lemma scanLinks_from:
  assumes "p \<in> set (fst (foldl (scanLink orig cn) st as))"
  shows "p \<in> set (fst st) \<or> normalizedFrom orig (set as) (url p)"
  using assms
proof (induction as arbitrary: st)
  case Nil
  then show ?case by simp
next
  case (Cons a as)
  from Cons.IH [OF Cons.prems [simplified]] scanLink_from [of p orig cn st a]
  show ?case by (auto simp: normalizedFrom_def)
qed

lemma extractProductUrls_from:
  assumes "extractProductUrls P doc orig cn = Some ps"
    and "p \<in> set ps"
  shows "normalizedFrom orig (docAnchors doc) (url p)"
proof -
  from assms(1) obtain st where st: "processCards P orig cn (findCards doc cardSelectors) ([], {}) = Some st"
    by (auto simp: extractProductUrls_def split: option.splits)
  have cards: "normalizedFrom orig (docAnchors doc) (url q)" if "q \<in> set (fst st)" for q
  proof -
    from processCards_from [OF st that] obtain c where c: "c \<in> set (findCards doc cardSelectors)"
      and n: "normalizedFrom orig (set (cardLinks c)) (url q)" by auto
    from findCards_subset [OF c] have "set (cardLinks c) \<subseteq> docAnchors doc"
      by (auto simp: docAnchors_def)
    with n show ?thesis by (rule normalizedFrom_mono)
  qed
  show ?thesis
  proof (cases "length (fst st) = 0")
    case True
    with assms st have "p \<in> set (fst (foldl (scanLink orig cn) st (allLinks doc)))"
      by (simp add: extractProductUrls_def)
    from scanLinks_from [OF this] True have "normalizedFrom orig (set (allLinks doc)) (url p)"
      by simp
    then show ?thesis by (rule normalizedFrom_mono) (simp add: docAnchors_def)
  next
    case False
    with assms st have "p \<in> set (fst st)" by (simp add: extractProductUrls_def)
    then show ?thesis by (rule cards)
  qed
qed

lemma step_inv:
  "crawlInv Q st \<Longrightarrow> url p \<notin> fst st \<Longrightarrow> Q (url p)
     \<Longrightarrow> crawlInv Q (insert (url p) (fst st), snd st @ [p])"
  by (auto simp: crawlInv_def)

lemma addCapped_inv:
  "crawlInv Q st \<Longrightarrow> \<forall>p \<in> set ps. Q (url p) \<Longrightarrow> crawlInv Q (addCapped m ps k st)"
  by (induction m ps k st rule: addCapped.induct) (simp_all add: step_inv)

lemma addNew_inv:
  "crawlInv Q st \<Longrightarrow> \<forall>p \<in> set ps. Q (url p) \<Longrightarrow> crawlInv Q (fst (addNew ps k st))"
  by (induction ps k st rule: addNew.induct) (simp_all add: step_inv)

lemma crawlPaginated_inv:
  assumes "crawlInv Q st"
    and "\<And>k doc ps p. steps k = Clicked doc \<Longrightarrow> extractProductUrls P doc orig cn = Some ps
           \<Longrightarrow> p \<in> set ps \<Longrightarrow> Q (url p)"
  shows "crawlInv Q (crawlPaginatedProducts P orig cn maxTotal steps pages st)"
  using assms
proof (induction P orig cn maxTotal steps pages st rule: crawlPaginatedProducts.induct)
  case (1 P orig cn maxTotal steps pages st)
  show ?case
  proof (cases "pages < 5 \<and> length (snd st) < maxTotal")
    case False
    then show ?thesis using "1.prems"(1) by (auto simp: crawlPaginatedProducts.simps [of _ _ _ _ _ pages st])
  next
    case True
    show ?thesis
    proof (cases "steps pages")
      case NoButton
      then show ?thesis using "1.prems"(1) True by (simp add: crawlPaginatedProducts.simps [of _ _ _ _ _ pages st])
    next
      case Threw
      then show ?thesis using "1.prems"(1) True by (simp add: crawlPaginatedProducts.simps [of _ _ _ _ _ pages st])
    next
      case (Clicked doc)
      show ?thesis
      proof (cases "extractProductUrls P doc orig cn")
        case None
        then show ?thesis using "1.prems"(1) True Clicked
          by (simp add: crawlPaginatedProducts.simps [of _ _ _ _ _ pages st])
      next
        case (Some ps)
        have q: "\<forall>p \<in> set ps. Q (url p)"
          using "1.prems"(2) [OF Clicked Some] by blast
        have i: "crawlInv Q (fst (addNew ps 0 st))"
          using "1.prems"(1) q by (rule addNew_inv)
        show ?thesis
        proof (cases "snd (addNew ps 0 st) = 0")
          case z: True
          then show ?thesis using i True Clicked Some
            by (simp add: crawlPaginatedProducts.simps [of _ _ _ _ _ pages st])
        next
          case nz: False
          have "crawlInv Q (crawlPaginatedProducts P orig cn maxTotal steps (pages + 1) (fst (addNew ps 0 st)))"
            using "1.IH" [OF True Clicked Some nz i] "1.prems"(2) by blast
          then show ?thesis using True Clicked Some nz
            by (simp add: crawlPaginatedProducts.simps [of _ _ _ _ _ pages st])
        qed
      qed
    qed
  qed
qed


lemma visitCategory_inv:
  assumes "crawlInv Q st"
    and "\<And>doc s. doc \<in> visitDocs (browse (catUrl cat)) \<Longrightarrow> normalizedFrom orig (docAnchors doc) s \<Longrightarrow> Q s"
  shows "crawlInv Q (visitCategory P browse orig m st cat)"
proof (cases "firstDoc (browse (catUrl cat))")
  case None
  then show ?thesis using assms(1) by (simp add: visitCategory_def)
next
  case (Some doc)
  then have d: "doc \<in> visitDocs (browse (catUrl cat))"
    by (simp add: visitDocs_def)
  show ?thesis
  proof (cases "extractProductUrls P doc orig (catName cat)")
    case None
    then show ?thesis using assms(1) Some by (simp add: visitCategory_def)
  next
    case raw: (Some rawProducts)
    let ?pageProducts = "filter (keepProduct P) (map (\<lambda>p. p\<lparr>name := cleanName P (name p)\<rparr>) rawProducts)"
    have "\<forall>p \<in> set ?pageProducts. Q (url p)"
    proof
      fix p assume "p \<in> set ?pageProducts"
      then obtain r where "r \<in> set rawProducts" "url p = url r" by auto
      then show "Q (url p)"
        using assms(2) [OF d extractProductUrls_from [OF raw]] by simp
    qed
    with assms(1) have i: "crawlInv Q (addCapped m ?pageProducts 0 st)"
      by (rule addCapped_inv)
    have later: "crawlInv Q (crawlPaginatedProducts P orig (catName cat) m
                   (laterSteps (browse (catUrl cat))) 0 (addCapped m ?pageProducts 0 st))"
    proof (rule crawlPaginated_inv [OF i])
      fix k doc' ps p
      assume c: "laterSteps (browse (catUrl cat)) k = Clicked doc'"
        and e: "extractProductUrls P doc' orig (catName cat) = Some ps" and p: "p \<in> set ps"
      from c have "doc' \<in> visitDocs (browse (catUrl cat))"
        by (auto simp: visitDocs_def)
      then show "Q (url p)"
        using assms(2) extractProductUrls_from [OF e p] by blast
    qed
    show ?thesis
      using Some raw i later
      by (auto simp: visitCategory_def Let_def split: option.splits bool.splits)
  qed
qed

lemma visitAll_inv:
  assumes "crawlInv Q st"
    and "\<And>cat doc s. cat \<in> set cats \<Longrightarrow> doc \<in> visitDocs (browse (catUrl cat))
           \<Longrightarrow> normalizedFrom orig (docAnchors doc) s \<Longrightarrow> Q s"
  shows "crawlInv Q (foldl (visitCategory P browse orig m) st cats)"
  using assms
proof (induction cats arbitrary: st)
  case Nil
  then show ?case by simp
next
  case (Cons cat cats)
  have "crawlInv Q (visitCategory P browse orig m st cat)"
    using Cons.prems(1) by (rule visitCategory_inv) (rule Cons.prems(2), simp_all)
  then have "crawlInv Q (foldl (visitCategory P browse orig m) (visitCategory P browse orig m st cat) cats)"
    by (rule Cons.IH) (rule Cons.prems(2), simp_all)
  then show ?case by simp
qed

text \<open>
  C8. In the registry that \<open>buildUrlRegistry\<close> returns no two products have the same
  URL, and every stored URL is the origin followed by the path of the resolved URL of an
  anchor of a document shown during the crawl, without query and fragment. The set of
  seen URLs is shared by the loop over the categories and the pagination pass, so a URL
  met again on the same page, on a later category page or after a click adds nothing.
\<close>

theorem registry_products_distinct:
  "distinct (map url (products (buildUrlRegistry P browse orig mainNav maxOpt)))
   \<and> (\<forall>p \<in> set (products (buildUrlRegistry P browse orig mainNav maxOpt)).
        \<exists>doc \<in> shownDocs browse (categories (buildUrlRegistry P browse orig mainNav maxOpt)).
          \<exists>a \<in> docAnchors doc. \<exists>u.
             resolved a = Some u \<and> origin u = orig \<and> url p = origin u @ pathname u)"
proof -
  let ?cats = "categories (buildUrlRegistry P browse orig mainNav maxOpt)"
  let ?m = "case maxOpt of None \<Rightarrow> 200 | Some m \<Rightarrow> m"
  let ?Q = "\<lambda>s. \<exists>doc \<in> shownDocs browse ?cats. normalizedFrom orig (docAnchors doc) s"
  have c: "categories (buildUrlRegistry P browse orig mainNav maxOpt) = ?cats" ..
  have p: "products (buildUrlRegistry P browse orig mainNav maxOpt)
      = snd (foldl (visitCategory P browse orig ?m) ({}, []) ?cats)"
    by (simp add: buildUrlRegistry_def Let_def)
  have "crawlInv ?Q ({}, [])"
    by (simp add: crawlInv_def)
  then have "crawlInv ?Q (foldl (visitCategory P browse orig ?m) ({}, []) ?cats)"
    by (rule visitAll_inv) (auto simp: shownDocs_def)
  then have d: "distinct (map url (snd (foldl (visitCategory P browse orig ?m) ({}, []) ?cats)))"
    and n: "\<forall>p \<in> set (snd (foldl (visitCategory P browse orig ?m) ({}, []) ?cats)). ?Q (url p)"
    by (simp_all add: crawlInv_def)
  show ?thesis
    unfolding p using d n by (simp add: normalizedFrom_def)
qed

theorem registry_products_distinct_witness:
  "map url (products (buildUrlRegistry shopPlatform shopBrowse ''https://shop.example'' shopNav None)) =
     [''https://shop.example/beds/oak-bed'', ''https://shop.example/beds/pine-bed'',
      ''https://shop.example/beds/elm-bed'', ''https://shop.example/sale/ash-desk'']
   \<and> distinct [''https://shop.example/beds/oak-bed'', ''https://shop.example/beds/pine-bed'',
      ''https://shop.example/beds/elm-bed'', ''https://shop.example/sale/ash-desk'']"
proof -
  have e: "map url (products (buildUrlRegistry shopPlatform shopBrowse ''https://shop.example'' shopNav None)) =
     [''https://shop.example/beds/oak-bed'', ''https://shop.example/beds/pine-bed'',
      ''https://shop.example/beds/elm-bed'', ''https://shop.example/sale/ash-desk'']"
    by code_simp
  from registry_products_distinct [of shopPlatform shopBrowse "''https://shop.example''" shopNav None]
  have "distinct (map url (products (buildUrlRegistry shopPlatform shopBrowse ''https://shop.example'' shopNav None)))"
    by blast
  with e show ?thesis by simp
qed

end
